theory Spec2Isabelle
  imports Main "HOL-Library.Char_ord" "HOL-Library.List_Lexorder" "HOL-Library.Multiset"
    "HOL-Library.Sublist"
begin

section \<open>Strings and library functions used by build\_site.py\<close>

text \<open>
  A Python \<open>str\<close> is modelled as a \<open>string\<close> whose characters stand for the code points
  0 to 255. Python compares strings by code point, which is the order of
  \<open>HOL-Library.Char_ord\<close>.
\<close>

abbreviation bslash :: char where "bslash \<equiv> CHR 0x5C"
abbreviation dquote :: char where "dquote \<equiv> CHR 0x22"
abbreviation squote :: char where "squote \<equiv> CHR 0x27"

text \<open>\<open>sep.join(xs)\<close>.\<close>

fun join :: "string \<Rightarrow> string list \<Rightarrow> string" where
  "join sep [] = []"
| "join sep [x] = x"
| "join sep (x # y # ys) = x @ sep @ join sep (y # ys)"

text \<open>
  \<open>s.replace(old, new)\<close>: the occurrences of \<open>old\<close> are found from left to right and do
  not overlap; what has been inserted is not looked at again. With an empty \<open>old\<close> Python puts
  \<open>new\<close> before every character and at the end.
\<close>

function str_replace :: "string \<Rightarrow> string \<Rightarrow> string \<Rightarrow> string" where
  "str_replace old new s =
     (if s = [] then (if old = [] then new else [])
      else if old = [] then new @ hd s # str_replace old new (tl s)
      else if prefix old s then new @ str_replace old new (drop (length old) s)
      else hd s # str_replace old new (tl s))"
  by pat_completeness auto
termination
  by (relation "measure (\<lambda>(old, new, s). length s)") auto

declare str_replace.simps [simp del]

text \<open>\<open>html.escape(s)\<close> with its default \<open>quote=True\<close>.\<close>

definition html_escape_char :: "char \<Rightarrow> string" where
  "html_escape_char c =
     (if c = CHR ''&'' then ''&amp;''
      else if c = CHR ''<'' then ''&lt;''
      else if c = CHR ''>'' then ''&gt;''
      else if c = dquote then ''&quot;''
      else if c = squote then ''&#x27;''
      else [c])"

definition html_escape :: "string \<Rightarrow> string" where
  "html_escape s = concat (map html_escape_char s)"

text \<open>\<open>str(n)\<close> for a non-negative integer.\<close>

definition digit_char :: "nat \<Rightarrow> char" where
  "digit_char d = char_of (48 + d)"

function dec :: "nat \<Rightarrow> string" where
  "dec n = (if n < 10 then [digit_char n] else dec (n div 10) @ [digit_char (n mod 10)])"
  by pat_completeness auto
termination
  by (relation "measure id") auto

declare dec.simps [simp del]

text \<open>
  \<open>datetime.utcnow().strftime("%Y-%m-%d %H:%M UTC")\<close>; the fields of the reading that the
  format uses (years of four digits).
\<close>

record datetime =
  dt_year :: nat
  dt_month :: nat
  dt_day :: nat
  dt_hour :: nat
  dt_minute :: nat

definition pad2 :: "nat \<Rightarrow> string" where
  "pad2 n = (if n < 10 then CHR ''0'' # dec n else dec n)"

definition strftime :: "datetime \<Rightarrow> string" where
  "strftime t =
     dec (dt_year t) @ ''-'' @ pad2 (dt_month t) @ ''-'' @ pad2 (dt_day t) @ '' ''
       @ pad2 (dt_hour t) @ '':'' @ pad2 (dt_minute t) @ '' UTC''"

section \<open>The tree of notebooks\<close>

text \<open>
  A node is the dict that \<open>collect_tree\<close> builds: \<open>{"type": "file", "name", "path",
  "nb_html"}\<close> or \<open>{"type": "dir", "name", "path", "children"}\<close>.
\<close>

datatype node =
    FileNode string string string
  | DirNode string string "node list"

fun node_name :: "node \<Rightarrow> string" where
  "node_name (FileNode n p h) = n"
| "node_name (DirNode n p cs) = n"

fun node_path :: "node \<Rightarrow> string" where
  "node_path (FileNode n p h) = p"
| "node_path (DirNode n p cs) = p"

fun is_file :: "node \<Rightarrow> bool" where
  "is_file (FileNode n p h) = True"
| "is_file (DirNode n p cs) = False"

text \<open>The file nodes of a tree, from left to right, and their number.\<close>

fun files_of :: "node \<Rightarrow> node list" where
  "files_of (FileNode n p h) = [FileNode n p h]"
| "files_of (DirNode n p cs) = concat (map files_of cs)"

definition count_files :: "node \<Rightarrow> nat" where
  "count_files t = length (files_of t)"

text \<open>
  \<open>prune_empty_dirs(node)\<close> returns the pair of the node, or \<open>None\<close>, and the flag
  \<open>has_ipynb\<close>. The test \<open>if pruned:\<close> is the test for \<open>None\<close>, a node being a dict with
  keys. The loop over the children is \<open>prune_children\<close>, which carries \<open>new_children\<close> and
  \<open>has_ipynb\<close>.
\<close>

fun prune_empty_dirs :: "node \<Rightarrow> node option \<times> bool"
  and prune_children :: "node list \<Rightarrow> node list \<Rightarrow> bool \<Rightarrow> node list \<times> bool" where
  "prune_empty_dirs (FileNode n p h) = (Some (FileNode n p h), True)"
| "prune_empty_dirs (DirNode n p cs) =
     (case prune_children cs [] False of
        (new_children, has_ipynb) \<Rightarrow>
          ((if has_ipynb then Some (DirNode n p new_children) else None), has_ipynb))"
| "prune_children [] new_children has_ipynb = (new_children, has_ipynb)"
| "prune_children (ch # chs) new_children has_ipynb =
     (case prune_empty_dirs ch of
        (pruned, child_has_ipynb) \<Rightarrow>
          prune_children chs
            (case pruned of None \<Rightarrow> new_children | Some nd \<Rightarrow> new_children @ [nd])
            (has_ipynb \<or> child_has_ipynb))"

section \<open>JSON serialisation of the tree\<close>

text \<open>\<open>json.dumps(tree, ensure_ascii=False)\<close> with the default separators.\<close>

definition hex_digit :: "nat \<Rightarrow> char" where
  "hex_digit d = (if d < 10 then char_of (48 + d) else char_of (87 + d))"

definition json_char :: "char \<Rightarrow> string" where
  "json_char c =
     (if c = dquote then [bslash, dquote]
      else if c = bslash then [bslash, bslash]
      else if c = CHR 0x0A then [bslash, CHR ''n'']
      else if c = CHR 0x0D then [bslash, CHR ''r'']
      else if c = CHR 0x09 then [bslash, CHR ''t'']
      else if c = CHR 0x08 then [bslash, CHR ''b'']
      else if c = CHR 0x0C then [bslash, CHR ''f'']
      else if (of_char c :: nat) < 32
        then [bslash, CHR ''u'', CHR ''0'', CHR ''0'',
              hex_digit (of_char c div 16), hex_digit (of_char c mod 16)]
      else [c])"

definition json_str :: "string \<Rightarrow> string" where
  "json_str s = dquote # concat (map json_char s) @ [dquote]"

definition json_item :: "string \<Rightarrow> string \<Rightarrow> string" where
  "json_item k v = json_str k @ '': '' @ v"

fun json_dumps :: "node \<Rightarrow> string" where
  "json_dumps (FileNode n p h) =
     ''{'' @ join '', ''
        [json_item ''type'' (json_str ''file''), json_item ''name'' (json_str n),
         json_item ''path'' (json_str p), json_item ''nb_html'' (json_str h)] @ ''}''"
| "json_dumps (DirNode n p cs) =
     ''{'' @ join '', ''
        [json_item ''type'' (json_str ''dir''), json_item ''name'' (json_str n),
         json_item ''path'' (json_str p),
         json_item ''children'' (''['' @ join '', '' (map json_dumps cs) @ '']'')] @ ''}''"

text \<open>The value substituted for \<open>TREE_JSON\<close> (line 181).\<close>

definition safe_json :: "node \<Rightarrow> string" where
  "safe_json tree = str_replace ''</'' [CHR ''<'', bslash, CHR ''/''] (json_dumps tree)"

section \<open>Token substitution\<close>

text \<open>
  The patterns are \<open>\{\{\s*NAME\s*\}\}\<close>, compiled without flags. For a \<open>str\<close> pattern
  \<open>\s\<close> is Unicode white space: below 256 these are the code points 9 to 13, 28 to 32,
  133 and 160.
\<close>

definition is_space :: "char \<Rightarrow> bool" where
  "is_space c =
     (let n = (of_char c :: nat)
      in (9 \<le> n \<and> n \<le> 13) \<or> (28 \<le> n \<and> n \<le> 32) \<or> n = 133 \<or> n = 160)"

fun strip_prefix :: "string \<Rightarrow> string \<Rightarrow> string option" where
  "strip_prefix [] s = Some s"
| "strip_prefix (p # ps) [] = None"
| "strip_prefix (p # ps) (c # cs) = (if p = c then strip_prefix ps cs else None)"

text \<open>
  A match of the pattern for \<open>NAME\<close> at the start of \<open>s\<close>, giving the text after the
  match. Each \<open>\s*\<close> is greedy, and no name starts with white space, so the engine has
  nothing to backtrack into.
\<close>

definition match_token :: "string \<Rightarrow> string \<Rightarrow> string option" where
  "match_token nm s =
     (case strip_prefix ''{{'' s of
        None \<Rightarrow> None
      | Some s1 \<Rightarrow>
          (case strip_prefix nm (dropWhile is_space s1) of
             None \<Rightarrow> None
           | Some s2 \<Rightarrow> strip_prefix ''}}'' (dropWhile is_space s2)))"

text \<open>
  \<open>re.sub(pattern, lambda m, v=value: v, out)\<close>: every match, from left to right, is
  replaced by \<open>value\<close> as it is, and the scan goes on after the match.
\<close>

function re_sub_token :: "string \<Rightarrow> string \<Rightarrow> string \<Rightarrow> string" where
  "re_sub_token nm v s =
     (if s = [] then []
      else (case match_token nm s of
              Some rest \<Rightarrow> v @ re_sub_token nm v rest
            | None \<Rightarrow> hd s # re_sub_token nm v (tl s)))"
  by pat_completeness auto
termination
proof (relation "measure (\<lambda>(nm, v, s). length s)")
  show "wf (measure (\<lambda>(nm, v, s). length s))"
    by simp
next
  fix nm v :: string and s rest :: string
  assume "s \<noteq> []" and m: "match_token nm s = Some rest"
  have sp: "strip_prefix p t = Some r \<Longrightarrow> length r + length p = length t" for p t r
    by (induction p t rule: strip_prefix.induct) (auto split: if_splits)
  have dw: "length (dropWhile is_space t) \<le> length t" for t
    by (simp add: length_dropWhile_le)
  from m obtain s1 s2 where a: "strip_prefix ''{{'' s = Some s1"
    and b: "strip_prefix nm (dropWhile is_space s1) = Some s2"
    and c: "strip_prefix ''}}'' (dropWhile is_space s2) = Some rest"
    by (auto simp: match_token_def split: option.splits)
  from sp [OF a] sp [OF b] sp [OF c] dw [of s1] dw [of s2]
  have "length rest < length s" by simp
  then show "((nm, v, rest), (nm, v, s)) \<in> measure (\<lambda>(nm, v, s). length s)"
    by simp
next
  fix nm v :: string and s :: string
  assume "s \<noteq> []"
  then show "((nm, v, tl s), (nm, v, s)) \<in> measure (\<lambda>(nm, v, s). length s)"
    by (cases s) auto
qed

declare re_sub_token.simps [simp del]

text \<open>
  \<open>render_tokens\<close> (line 170). The clock is read once in every call; \<open>now\<close> is that
  reading. The dict \<open>rep\<close> is gone through in the order of its keys' insertion.
\<close>

definition render_tokens :: "datetime \<Rightarrow> string \<Rightarrow> string \<Rightarrow> nat \<Rightarrow> node option \<Rightarrow> string" where
  "render_tokens now src title nb_count tree =
     (let ts = strftime now;
          rep = [(''TITLE'', html_escape title), (''TIMESTAMP'', ts),
                 (''NBCOUNT'', dec nb_count)];
          out = foldl (\<lambda>out (pat, val). re_sub_token pat val out) src rep
      in (case tree of
            None \<Rightarrow> out
          | Some t \<Rightarrow> re_sub_token ''TREE_JSON'' (safe_json t) out))"

section \<open>Paths\<close>

text \<open>
  A path is the list of its components; \<open>src\<close>, \<open>out\<close> and the template directory are
  absolute (\<open>main\<close> resolves them), so their lists start below the file system's root.
\<close>

type_synonym path = "string list"

text \<open>\<open>str(p)\<close> for an absolute and for a relative path, with \<open>os.sep = "/"\<close>.\<close>

definition path_str :: "path \<Rightarrow> string" where
  "path_str p = CHR ''/'' # join ''/'' p"

definition rel_str :: "path \<Rightarrow> string" where
  "rel_str p = (if p = [] then ''.'' else join ''/'' p)"

text \<open>\<open>p.name\<close>, \<open>p.parent\<close> and \<open>p.parents\<close> (the nearest ancestor first).\<close>

definition path_name :: "path \<Rightarrow> string" where
  "path_name p = (if p = [] then [] else last p)"

definition parent :: "path \<Rightarrow> path" where
  "parent p = butlast p"

definition parents :: "path \<Rightarrow> path list" where
  "parents p = map (\<lambda>k. take k p) (rev [0..<length p])"

text \<open>\<open>p.relative_to(base)\<close>, which raises \<open>ValueError\<close> when \<open>p\<close> is not under \<open>base\<close>.\<close>

definition relative_to :: "path \<Rightarrow> path \<Rightarrow> path option" where
  "relative_to p base = (if prefix base p then Some (drop (length base) p) else None)"

text \<open>
  \<open>name.rfind(".")\<close> and \<open>p.suffix\<close>: the name from its last dot on, when that dot is
  neither the first nor the last character of the name.
\<close>

definition rfind :: "char \<Rightarrow> string \<Rightarrow> nat option" where
  "rfind c s =
     (if c \<in> set s then Some (length s - 1 - length (takeWhile (\<lambda>x. x \<noteq> c) (rev s)))
      else None)"

definition suffix_of :: "string \<Rightarrow> string" where
  "suffix_of name =
     (case rfind CHR ''.'' name of
        None \<Rightarrow> []
      | Some i \<Rightarrow> (if 0 < i \<and> i < length name - 1 then drop i name else []))"

text \<open>\<open>p.with_suffix(suf)\<close> on the name of a path that has one.\<close>

definition with_suffix :: "string \<Rightarrow> string \<Rightarrow> string" where
  "with_suffix name suf =
     (let old = suffix_of name
      in if old = [] then name @ suf else take (length name - length old) name @ suf)"

text \<open>\<open>s.lower()\<close> on the code points below 256.\<close>

definition lower_char :: "char \<Rightarrow> char" where
  "lower_char c =
     (let n = (of_char c :: nat)
      in if (65 \<le> n \<and> n \<le> 90) \<or> (192 \<le> n \<and> n \<le> 222 \<and> n \<noteq> 215)
         then char_of (n + 32) else c)"

definition lower :: "string \<Rightarrow> string" where
  "lower s = map lower_char s"

section \<open>The world outside the script\<close>

text \<open>
  What the script observes of the file system, the converter and the clock:
  \<^item> \<open>rglob\<close>: the entries that \<open>src.rglob("*")\<close> yields, each as its components below
    \<open>src\<close> (the entry is \<open>src / rel\<close>), in the order of the enumeration;
  \<^item> \<open>is_dir p\<close>: \<open>p.is_dir()\<close>;
  \<^item> \<open>resolve_str p\<close>: \<open>str(p.resolve())\<close>;
  \<^item> \<open>executable\<close>: \<open>sys.executable\<close>;
  \<^item> \<open>conv_ok cmd\<close>: the converter, run with the command line \<open>cmd\<close>, exits with status 0;
  \<^item> \<open>read_text p\<close>: the text of the file \<open>p\<close>, \<open>None\<close> when \<open>p\<close> does not exist;
  \<^item> \<open>os_walk d\<close>: what \<open>os.walk(d)\<close> yields, each directory (as its components below
    \<open>d\<close>) with the names of its files, \<open>None\<close> when \<open>d\<close> does not exist;
  \<^item> \<open>utcnow k\<close>: what the call number \<open>k\<close> of \<open>datetime.utcnow()\<close> returns.
  Writing, copying and creating directories are taken to succeed.
\<close>

record env =
  rglob :: "path list"
  is_dir :: "path \<Rightarrow> bool"
  resolve_str :: "path \<Rightarrow> string"
  executable :: string
  conv_ok :: "string list \<Rightarrow> bool"
  read_text :: "path \<Rightarrow> string option"
  os_walk :: "path \<Rightarrow> (path \<times> string list) list option"
  utcnow :: "nat \<Rightarrow> datetime"

text \<open>What the script does to the world, in the order in which it does it.\<close>

datatype effect =
    Mkdir path
  | Run "string list"
  | WriteText path string
  | Copy2 path path

datatype error =
    CalledProcessError "string list"
  | KeyError string
  | ValueError
  | FileNotFoundError string

section \<open>Helpers\<close>

text \<open>\<open>copy_tree\<close> (line 16) and \<open>load_template_index\<close> (line 32).\<close>

definition copy_tree :: "env \<Rightarrow> path \<Rightarrow> path \<Rightarrow> effect list" where
  "copy_tree e src_dir dst_dir =
     (case os_walk e src_dir of
        None \<Rightarrow> []
      | Some ws \<Rightarrow>
          concat (map (\<lambda>(rel, files).
            Mkdir (dst_dir @ rel)
              # map (\<lambda>f. Copy2 (src_dir @ rel @ [f]) (dst_dir @ rel @ [f])) files) ws))"

definition load_template_index :: "env \<Rightarrow> path \<Rightarrow> error + string" where
  "load_template_index e template_dir =
     (let index_path = template_dir @ [''index.html'']
      in (case read_text e index_path of
            None \<Rightarrow> Inl (FileNotFoundError (''Template missing: '' @ path_str index_path))
          | Some txt \<Rightarrow> Inr txt))"

section \<open>collect\_tree\<close>

text \<open>
  The tree is built in place: \<open>dir_map\<close> and \<open>parent_node\<close> hold references to dicts that
  are in the tree, and a child is appended through such a reference. A reference is modelled
  by the position of the node in the tree, the list of the child indices that lead to it
  from the root. Children are only ever appended, so a position keeps denoting its node.
\<close>

fun get_at :: "nat list \<Rightarrow> node \<Rightarrow> node option" where
  "get_at [] t = Some t"
| "get_at (i # is) (DirNode n p cs) = (if i < length cs then get_at is (cs ! i) else None)"
| "get_at (i # is) (FileNode n p h) = None"

text \<open>\<open>len(node["children"])\<close> for the node at a position.\<close>

definition nchildren :: "nat list \<Rightarrow> node \<Rightarrow> nat" where
  "nchildren pos t = (case get_at pos t of Some (DirNode n p cs) \<Rightarrow> length cs | _ \<Rightarrow> 0)"

text \<open>\<open>node["children"].append(ch)\<close> for the node at a position.\<close>

fun append_at :: "nat list \<Rightarrow> node \<Rightarrow> node \<Rightarrow> node" where
  "append_at [] ch (DirNode n p cs) = DirNode n p (cs @ [ch])"
| "append_at (i # is) ch (DirNode n p cs) =
     (if i < length cs then DirNode n p (cs[i := append_at is ch (cs ! i)])
      else DirNode n p cs)"
| "append_at pos ch (FileNode n p h) = FileNode n p h"

record wstate =
  root :: node
  dir_map :: "string \<Rightarrow> nat list option"
  nb_count :: nat
  fx :: "effect list"

text \<open>
  The loop of line 82 over \<open>enumerate(parts)\<close>: \<open>i\<close> is the index, \<open>ps\<close> the parts still
  to come, \<open>cur\<close> and \<open>parent_node\<close> the loop's variables.
\<close>

fun ensure_dirs ::
  "env \<Rightarrow> path \<Rightarrow> nat \<Rightarrow> string list \<Rightarrow> path \<Rightarrow> nat list \<Rightarrow> wstate \<Rightarrow> wstate" where
  "ensure_dirs e rel_parts i [] cur parent_node s = s"
| "ensure_dirs e rel_parts i (p # ps) cur parent_node s =
     (let cur' = cur @ [p]; key = resolve_str e cur'
      in (case dir_map s key of
            None \<Rightarrow>
              (let nd = DirNode p (rel_str (take (i + 1) rel_parts)) [];
                   pos = parent_node @ [nchildren parent_node (root s)]
               in ensure_dirs e rel_parts (i + 1) ps cur' pos
                    (s\<lparr>root := append_at parent_node nd (root s),
                       dir_map := (dir_map s)(key \<mapsto> pos)\<rparr>))
          | Some pos \<Rightarrow> ensure_dirs e rel_parts (i + 1) ps cur' pos s))"

text \<open>The path of the converted document and the command line (lines 104 to 113).\<close>

definition out_html_of :: "path \<Rightarrow> path \<Rightarrow> path" where
  "out_html_of out rel = butlast (out @ rel) @ [with_suffix (last (out @ rel)) ''.html'']"

definition convert_cmd :: "env \<Rightarrow> path \<Rightarrow> path \<Rightarrow> bool \<Rightarrow> path \<Rightarrow> string list" where
  "convert_cmd e src out execute rel =
     (let out_html = out_html_of out rel
      in [executable e, ''-m'', ''nbconvert'', ''--to'', ''html'',
          ''--HTMLExporter.embed_images=True'',
          ''--output'', path_name out_html, ''--output-dir'', path_str (parent out_html),
          path_str (src @ rel)]
         @ (if execute then [''--execute''] else []))"

text \<open>
  One turn of the loop of line 72, for the entry \<open>src / rel\<close>. The result is the exception
  that ends the walk, if any, and the state.
\<close>

definition visit :: "env \<Rightarrow> path \<Rightarrow> path \<Rightarrow> bool \<Rightarrow> path \<Rightarrow> wstate \<Rightarrow> error option \<times> wstate" where
  "visit e src out execute rel s =
     (let path = src @ rel
      in if out \<in> set (parents path) \<or> path = out then (None, s)
         else if rel = [] then (None, s)
         else
           (let s1 = ensure_dirs e rel 0 (if \<not> is_dir e path then butlast rel else rel) src [] s
            in if is_dir e path then (None, s1)
               else if lower (suffix_of (path_name path)) \<noteq> ''.ipynb'' then (None, s1)
               else
                 (let out_html = out_html_of out rel;
                      cmd = convert_cmd e src out execute rel;
                      s2 = s1\<lparr>nb_count := nb_count s1 + 1,
                              fx := fx s1 @ [Mkdir (parent out_html), Run cmd]\<rparr>
                  in if \<not> conv_ok e cmd then (Some (CalledProcessError cmd), s2)
                     else
                       (case relative_to out_html out of
                          None \<Rightarrow> (Some ValueError, s2)
                        | Some r \<Rightarrow>
                            (let file_node =
                                   FileNode (path_name rel) (rel_str rel)
                                     (str_replace ''/'' ''/'' (rel_str r));
                                 parent_key = resolve_str e (parent path)
                             in (case dir_map s2 parent_key of
                                   None \<Rightarrow> (Some (KeyError parent_key), s2)
                                 | Some pos \<Rightarrow>
                                     (None, s2\<lparr>root := append_at pos file_node (root s2)\<rparr>)))))))"

fun walk :: "env \<Rightarrow> path \<Rightarrow> path \<Rightarrow> bool \<Rightarrow> path list \<Rightarrow> wstate \<Rightarrow> error option \<times> wstate" where
  "walk e src out execute [] s = (None, s)"
| "walk e src out execute (rel # rest) s =
     (case visit e src out execute rel s of
        (Some err, s') \<Rightarrow> (Some err, s')
      | (None, s') \<Rightarrow> walk e src out execute rest s')"

definition empty_root :: "path \<Rightarrow> node" where
  "empty_root src = DirNode (path_name src) [] []"

definition init_state :: "env \<Rightarrow> path \<Rightarrow> wstate" where
  "init_state e src =
     \<lparr>root = empty_root src, dir_map = [resolve_str e src \<mapsto> []], nb_count = 0, fx = []\<rparr>"

text \<open>
  \<open>collect_tree\<close> (line 62): the pair of the tree and the count, or the exception, and what
  has been done to the world. \<open>sorted\<close> orders paths by their lists of components.
\<close>

definition collect_tree :: "env \<Rightarrow> path \<Rightarrow> path \<Rightarrow> bool \<Rightarrow> (error + node \<times> nat) \<times> effect list" where
  "collect_tree e src out execute =
     (case walk e src out execute (sort (rglob e)) (init_state e src) of
        (Some err, s) \<Rightarrow> (Inl err, fx s)
      | (None, s) \<Rightarrow>
          (case fst (prune_empty_dirs (root s)) of
             None \<Rightarrow> (Inr (empty_root src, nb_count s), fx s)
           | Some r \<Rightarrow> (Inr (r, nb_count s), fx s)))"

section \<open>build\_static\_site\<close>

text \<open>
  The loop of line 153 over the pages; \<open>k\<close> counts the readings of the clock so far, one in
  every call of \<open>render_tokens\<close>.
\<close>

fun render_pages ::
  "env \<Rightarrow> path \<Rightarrow> path \<Rightarrow> string \<Rightarrow> nat \<Rightarrow> node \<Rightarrow> (string \<times> bool) list \<Rightarrow> nat \<Rightarrow> effect list" where
  "render_pages e out template_dir title nb tree [] k = []"
| "render_pages e out template_dir title nb tree ((fname, needs_tree) # ps) k =
     (case read_text e (template_dir @ [fname]) of
        None \<Rightarrow> render_pages e out template_dir title nb tree ps k
      | Some src_html \<Rightarrow>
          (let html_doc =
                 render_tokens (utcnow e k) src_html title nb
                   (if needs_tree then Some tree else None)
           in WriteText (out @ [fname]) html_doc
                # render_pages e out template_dir title nb tree ps (k + 1)))"

definition pages :: "(string \<times> bool) list" where
  "pages = [(''index.html'', False), (''software.html'', True),
            (''publications.html'', False), (''research.html'', False)]"

definition build_static_site ::
  "env \<Rightarrow> path \<Rightarrow> path \<Rightarrow> path \<Rightarrow> string \<Rightarrow> bool \<Rightarrow> (error + nat) \<times> effect list" where
  "build_static_site e src out template_dir title execute =
     (case collect_tree e src out execute of
        (Inl err, fx1) \<Rightarrow> (Inl err, fx1)
      | (Inr (tree, nb), fx1) \<Rightarrow>
          (Inr nb,
           fx1 @ [Mkdir out]
             @ render_pages e out template_dir title nb tree pages 0
             @ copy_tree e (template_dir @ [''css'']) (out @ [''css''])
             @ copy_tree e (template_dir @ [''assets'']) (out @ [''assets''])
             @ copy_tree e (template_dir @ [''js'']) (out @ [''js''])))"

section \<open>Notions used to state the properties\<close>

text \<open>A tree contains a file node: at the node itself or below it.\<close>

definition contains_file :: "node \<Rightarrow> bool" where
  "contains_file t = (files_of t \<noteq> [])"

text \<open>
  Pruning as the specification words it: every directory node whose subtree holds no file
  node is removed, and nothing else is. It is compared with \<open>prune_empty_dirs\<close> below.
\<close>

fun prune_spec :: "node \<Rightarrow> node" where
  "prune_spec (FileNode n p h) = FileNode n p h"
| "prune_spec (DirNode n p cs) = DirNode n p (map prune_spec (filter contains_file cs))"

text \<open>The position denotes a directory node of the tree.\<close>

definition is_dir_at :: "nat list \<Rightarrow> node \<Rightarrow> bool" where
  "is_dir_at pos t = (case get_at pos t of Some (DirNode n p cs) \<Rightarrow> True | _ \<Rightarrow> False)"

text \<open>
  The tests of the walk (lines 73, 76, 92 and 96) on the entry \<open>src / rel\<close>: it is the output
  directory or lies inside it; it is a file with the suffix of a notebook; it gets as far as
  the conversion.
\<close>

definition inside_out :: "path \<Rightarrow> path \<Rightarrow> path \<Rightarrow> bool" where
  "inside_out src out rel = (out \<in> set (parents (src @ rel)) \<or> src @ rel = out)"

definition is_notebook :: "env \<Rightarrow> path \<Rightarrow> path \<Rightarrow> bool" where
  "is_notebook e src rel =
     (\<not> is_dir e (src @ rel) \<and> lower (suffix_of (path_name (src @ rel))) = ''.ipynb'')"

definition converted :: "env \<Rightarrow> path \<Rightarrow> path \<Rightarrow> path \<Rightarrow> bool" where
  "converted e src out rel = (\<not> inside_out src out rel \<and> rel \<noteq> [] \<and> is_notebook e src rel)"

text \<open>
  The file node and the effects of the conversion of the entry \<open>src / rel\<close> (lines 101 to
  116), and the entries that are converted, in the order of the walk.
\<close>

definition file_node_of :: "path \<Rightarrow> node" where
  "file_node_of rel =
     FileNode (path_name rel) (rel_str rel)
       (str_replace ''/'' ''/'' (rel_str (butlast rel @ [with_suffix (last rel) ''.html''])))"

definition conv_fx :: "env \<Rightarrow> path \<Rightarrow> path \<Rightarrow> bool \<Rightarrow> path \<Rightarrow> effect list" where
  "conv_fx e src out execute rel =
     [Mkdir (parent (out_html_of out rel)), Run (convert_cmd e src out execute rel)]"

definition walked :: "env \<Rightarrow> path \<Rightarrow> path \<Rightarrow> path list" where
  "walked e src out = filter (converted e src out) (sort (rglob e))"

text \<open>
  The invariant of the walk: every reference held by \<open>dir_map\<close> denotes a directory node of
  the tree, and the source root has its entry.
\<close>

definition wf_state :: "env \<Rightarrow> path \<Rightarrow> wstate \<Rightarrow> bool" where
  "wf_state e src s =
     ((\<forall>k pos. dir_map s k = Some pos \<longrightarrow> is_dir_at pos (root s))
      \<and> dir_map s (resolve_str e src) \<noteq> None)"

text \<open>
  The pages whose template exists, in the order of the loop, and the effect of writing one
  of them, rendered with a reading of the clock.
\<close>

definition existing_pages :: "env \<Rightarrow> path \<Rightarrow> (string \<times> bool) list \<Rightarrow> (string \<times> bool) list" where
  "existing_pages e template_dir ps =
     filter (\<lambda>pg. read_text e (template_dir @ [fst pg]) \<noteq> None) ps"

definition rendered_page ::
  "env \<Rightarrow> path \<Rightarrow> path \<Rightarrow> string \<Rightarrow> nat \<Rightarrow> node \<Rightarrow> datetime \<Rightarrow> string \<times> bool \<Rightarrow> effect" where
  "rendered_page e out template_dir title nb tree now pg =
     WriteText (out @ [fst pg])
       (render_tokens now
          (case read_text e (template_dir @ [fst pg]) of None \<Rightarrow> [] | Some src_html \<Rightarrow> src_html)
          title nb (if snd pg then Some tree else None))"

text \<open>
  A name that is not empty and holds no brace and no white space, as the names of the four
  tokens are.
\<close>

definition name_ok :: "string \<Rightarrow> bool" where
  "name_ok nm =
     (nm \<noteq> [] \<and> (\<forall>c \<in> set nm. c \<noteq> CHR ''{'' \<and> c \<noteq> CHR ''}'' \<and> \<not> is_space c))"


text \<open>The names of the children of the node at a position, in their order.\<close>

definition child_names :: "nat list \<Rightarrow> node \<Rightarrow> string list" where
  "child_names pos t =
     (case get_at pos t of Some (DirNode n p cs) \<Rightarrow> map node_name cs | _ \<Rightarrow> [])"



section \<open>Example inputs\<close>

text \<open>
  The scenario of the specification: \<open>a/b/nb1.ipynb\<close>, \<open>a/c/readme.md\<close>, \<open>d/nb2.ipynb\<close>
  and the empty directory \<open>e\<close> under \<open>/src\<close>, an empty template directory, and a converter
  that succeeds. The entries are listed out of order.
\<close>

definition demo_env :: env where
  "demo_env =
     \<lparr>rglob = [[''d'', ''nb2.ipynb''], [''a''], [''e''], [''a'', ''b''], [''a'', ''c''],
               [''a'', ''b'', ''nb1.ipynb''], [''a'', ''c'', ''readme.md''], [''d'']],
      is_dir = (\<lambda>p. p \<in> set [[''src'', ''a''], [''src'', ''e''], [''src'', ''a'', ''b''],
                                [''src'', ''a'', ''c''], [''src'', ''d'']]),
      resolve_str = path_str,
      executable = ''python3'',
      conv_ok = (\<lambda>cmd. True),
      read_text = (\<lambda>p. None),
      os_walk = (\<lambda>p. None),
      utcnow = (\<lambda>k. \<lparr>dt_year = 2025, dt_month = 3, dt_day = 9, dt_hour = 7, dt_minute = 5\<rparr>)\<rparr>"

text \<open>The tree of the scenario before and after pruning.\<close>

definition demo_unpruned :: node where
  "demo_unpruned =
     DirNode ''src'' []
       [DirNode ''a'' ''a''
          [DirNode ''b'' ''a/b'' [FileNode ''nb1.ipynb'' ''a/b/nb1.ipynb'' ''a/b/nb1.html''],
           DirNode ''c'' ''a/c'' []],
        DirNode ''d'' ''d'' [FileNode ''nb2.ipynb'' ''d/nb2.ipynb'' ''d/nb2.html''],
        DirNode ''e'' ''e'' []]"

definition demo_tree :: node where
  "demo_tree =
     DirNode ''src'' []
       [DirNode ''a'' ''a''
          [DirNode ''b'' ''a/b'' [FileNode ''nb1.ipynb'' ''a/b/nb1.ipynb'' ''a/b/nb1.html'']],
        DirNode ''d'' ''d'' [FileNode ''nb2.ipynb'' ''d/nb2.ipynb'' ''d/nb2.html'']]"

text \<open>A source tree without any notebook.\<close>

definition plain_env :: env where
  "plain_env =
     demo_env\<lparr>rglob := [[''a''], [''a'', ''readme.md''], [''e'']],
              is_dir := (\<lambda>p. p \<in> set [[''src'', ''a''], [''src'', ''e'']])\<rparr>"

text \<open>
  The scenario with a converter that fails on \<open>a/b/nb1.ipynb\<close>, and a template directory
  that holds \<open>index.html\<close>.
\<close>

definition fail_env :: env where
  "fail_env =
     demo_env\<lparr>conv_ok := (\<lambda>cmd. last cmd \<noteq> ''/src/a/b/nb1.ipynb''),
              read_text := (\<lambda>p. if p = [''tpl'', ''index.html''] then Some ''{{ NBCOUNT }}'' else None)\<rparr>"

text \<open>
  The name and the path of every node of a tree, and what the walk may give a node: the
  name and the empty path of the root, or the last component and the relative path of some
  path below the source root that is neither the output directory nor inside it.
\<close>

fun labels :: "node \<Rightarrow> (string \<times> string) list" where
  "labels (FileNode n p h) = [(n, p)]"
| "labels (DirNode n p cs) = (n, p) # concat (map labels cs)"

definition label_ok :: "path \<Rightarrow> path \<Rightarrow> string \<times> string \<Rightarrow> bool" where
  "label_ok src out l =
     (l = (path_name src, []) \<or> (\<exists>q. q \<noteq> [] \<and> \<not> inside_out src out q \<and> l = (last q, rel_str q)))"

text \<open>A source tree that holds its own output directory, with a notebook in it.\<close>

definition site_env :: env where
  "site_env =
     demo_env\<lparr>rglob := [[''site''], [''site'', ''old.ipynb''], [''nb.ipynb'']],
              is_dir := (\<lambda>p. p = [''src'', ''site''])\<rparr>"

text \<open>
  A name ends in an extension, compared without regard to case, as the specification words
  the test for a notebook.
\<close>

definition ends_with_ci :: "string \<Rightarrow> string \<Rightarrow> bool" where
  "ends_with_ci name ext =
     (length ext \<le> length name \<and> lower (drop (length name - length ext) name) = lower ext)"

text \<open>
  A source tree with a file named \<open>.ipynb\<close> and with a notebook inside its output
  directory.
\<close>

definition dot_env :: env where
  "dot_env =
     demo_env\<lparr>rglob := [[''.ipynb''], [''site''], [''site'', ''old.ipynb'']],
              is_dir := (\<lambda>p. p = [''src'', ''site''])\<rparr>"

text \<open>The effect is the writing of a text to the path.\<close>

definition is_write_to :: "path \<Rightarrow> effect \<Rightarrow> bool" where
  "is_write_to p x = (case x of WriteText q c \<Rightarrow> q = p | _ \<Rightarrow> False)"

text \<open>
  Template directories: one with \<open>software.html\<close> and no \<open>index.html\<close>, beside the source
  tree that holds one notebook; one with two pages that show the time stamp, beside an empty
  source tree, under a clock that stands still and under a clock that moves on by a minute
  from one reading to the next.
\<close>

definition noindex_env :: env where
  "noindex_env =
     site_env\<lparr>read_text :=
       (\<lambda>p. if p = [''tpl'', ''software.html''] then Some ''{{ NBCOUNT }}'' else None)\<rparr>"

definition pages_env :: env where
  "pages_env =
     demo_env\<lparr>rglob := [], is_dir := (\<lambda>p. False),
       read_text :=
         (\<lambda>p. if p = [''tpl'', ''index.html''] \<or> p = [''tpl'', ''software.html'']
              then Some ''{{ TIMESTAMP }}'' else None)\<rparr>"

definition tick_env :: env where
  "tick_env =
     pages_env\<lparr>utcnow :=
       (\<lambda>k. \<lparr>dt_year = 2025, dt_month = 3, dt_day = 9, dt_hour = 7, dt_minute = k\<rparr>)\<rparr>"

text \<open>A source tree with a notebook in one directory and nothing in another.\<close>

definition prune_env :: env where
  "prune_env =
     demo_env\<lparr>rglob := [[''e''], [''d'', ''nb2.ipynb''], [''d'']],
              is_dir := (\<lambda>p. p \<in> set [[''src'', ''e''], [''src'', ''d'']])\<rparr>"

text \<open>
  The two pages under a clock whose first two readings agree and whose later readings show
  the next minute.
\<close>

definition steady_env :: env where
  "steady_env =
     pages_env\<lparr>utcnow :=
       (\<lambda>k. \<lparr>dt_year = 2025, dt_month = 3, dt_day = 9, dt_hour = 7,
              dt_minute = (if k < 2 then 5 else 6)\<rparr>)\<rparr>"


section \<open>Escaping of the serialised tree\<close>

lemma str_replace_Nil: "old \<noteq> [] \<Longrightarrow> str_replace old new [] = []"
  by (simp add: str_replace.simps [of _ _ "[]"])

lemma str_replace_match:
  "old \<noteq> [] \<Longrightarrow> str_replace old new (old @ r) = new @ str_replace old new r"
  by (subst str_replace.simps) simp

lemma str_replace_skip:
  "old \<noteq> [] \<Longrightarrow> \<not> prefix old (c # cs) \<Longrightarrow>
   str_replace old new (c # cs) = c # str_replace old new cs"
  by (subst str_replace.simps) simp

lemma str_replace_lt_head:
  assumes "str_replace ''</'' [CHR ''<'', bslash, CHR ''/''] s = CHR ''/'' # r"
  shows "\<exists>s'. s = CHR ''/'' # s'"
proof (cases s)
  case Nil
  with assms show ?thesis by (simp add: str_replace_Nil)
next
  case (Cons c cs)
  show ?thesis
  proof (cases "prefix ''</'' s")
    case True
    then obtain t where "s = ''</'' @ t" by (auto simp: prefix_def)
    moreover have "str_replace ''</'' [CHR ''<'', bslash, CHR ''/''] (''</'' @ t)
        = [CHR ''<'', bslash, CHR ''/''] @ str_replace ''</'' [CHR ''<'', bslash, CHR ''/''] t"
      by (rule str_replace_match) simp
    ultimately show ?thesis using assms by simp
  next
    case False
    with assms Cons show ?thesis by (simp add: str_replace_skip)
  qed
qed

lemma str_replace_lt_no_close:
  "\<not> sublist ''</'' (str_replace ''</'' [CHR ''<'', bslash, CHR ''/''] s)"
proof (induction "length s" arbitrary: s rule: less_induct)
  case less
  show ?case
  proof (cases s)
    case Nil
    then show ?thesis by (simp add: str_replace_Nil)
  next
    case (Cons c cs)
    show ?thesis
    proof (cases "prefix ''</'' s")
      case True
      then obtain t where s: "s = ''</'' @ t" by (auto simp: prefix_def)
      have "length t < length s" using s by simp
      from less [OF this]
      have "\<not> sublist ''</'' (str_replace ''</'' [CHR ''<'', bslash, CHR ''/''] t)" .
      then have "\<not> sublist ''</'' ([CHR ''<'', bslash, CHR ''/''] @ str_replace ''</'' [CHR ''<'', bslash, CHR ''/''] t)"
        by (simp add: sublist_Cons_right)
      moreover have "str_replace ''</'' [CHR ''<'', bslash, CHR ''/''] (''</'' @ t)
        = [CHR ''<'', bslash, CHR ''/''] @ str_replace ''</'' [CHR ''<'', bslash, CHR ''/''] t"
        by (rule str_replace_match) simp
      ultimately show ?thesis unfolding s by simp
    next
      case False
      have IH: "\<not> sublist ''</'' (str_replace ''</'' [CHR ''<'', bslash, CHR ''/''] cs)"
        using less [of cs] Cons by simp
      have np: "\<not> prefix ''</'' (c # str_replace ''</'' [CHR ''<'', bslash, CHR ''/''] cs)"
      proof
        assume "prefix ''</'' (c # str_replace ''</'' [CHR ''<'', bslash, CHR ''/''] cs)"
        then obtain r where c: "c = CHR ''<''"
          and "str_replace ''</'' [CHR ''<'', bslash, CHR ''/''] cs = CHR ''/'' # r"
          by (auto simp: prefix_def)
        then obtain s' where "cs = CHR ''/'' # s'" using str_replace_lt_head by blast
        with c Cons False show False by simp
      qed
      have "str_replace ''</'' [CHR ''<'', bslash, CHR ''/''] s
            = c # str_replace ''</'' [CHR ''<'', bslash, CHR ''/''] cs"
        using False Cons by (simp add: str_replace_skip)
      with IH np show ?thesis
        by (simp add: sublist_Cons_right)
    qed
  qed
qed

text \<open>
  Claim C8. For every tree, the value substituted for \<open>TREE_JSON\<close>, the JSON text of the
  tree in which \<open>str.replace\<close> has put \<open><\/\<close> for every \<open></\<close>, has no occurrence of
  \<open></\<close>, and so none of \<open></script\<close>.
\<close>

theorem tree_json_never_closes_script:
  "\<not> sublist ''</'' (safe_json t) \<and> \<not> sublist ''</script'' (safe_json t)"
proof -
  have a: "\<not> sublist ''</'' (safe_json t)" by (simp add: safe_json_def str_replace_lt_no_close)
  have "prefix ''</'' ''</script''" by simp 
  then have "sublist ''</'' ''</script''" by (rule prefix_imp_sublist)
  with a have "\<not> sublist ''</script'' (safe_json t)" using sublist_order.order_trans by blast
  with a show ?thesis by simp
qed

section \<open>Pruning and the walk\<close>

lemma contains_file_simps [simp]:
  "contains_file (FileNode n p h)"
  "contains_file (DirNode n p cs) = (\<exists>c \<in> set cs. contains_file c)"
  by (auto simp: contains_file_def)

lemma prune_correct:
  "prune_empty_dirs t = ((if contains_file t then Some (prune_spec t) else None), contains_file t)"
  "prune_children cs acc b =
     (acc @ map prune_spec (filter contains_file cs), b \<or> (\<exists>c \<in> set cs. contains_file c))"
  by (induction t and cs acc b rule: prune_empty_dirs_prune_children.induct) auto

lemma files_of_prune_spec: "files_of (prune_spec t) = files_of t"
proof (induction t rule: prune_spec.induct)
  case (1 n p h)
  show ?case by simp
next
  case (2 n p cs)
  have "concat (map files_of (map prune_spec (filter contains_file cs)))
        = concat (map files_of (filter contains_file cs))"
    using 2 by (auto simp: map_eq_conv intro!: arg_cong [where f = concat])
  also have "\<dots> = concat (map files_of cs)"
    by (induction cs) (auto simp: contains_file_def)
  finally show ?case by simp
qed

lemma is_dir_at_Nil [simp]: "is_dir_at [] (DirNode n p cs)"
  by (simp add: is_dir_at_def)

lemma is_dir_at_Cons:
  "is_dir_at (i # is) t \<longleftrightarrow> (\<exists>n p cs. t = DirNode n p cs \<and> i < length cs \<and> is_dir_at is (cs ! i))"
  by (cases t) (auto simp: is_dir_at_def)

lemma concat_map_update:
  "i < length cs \<Longrightarrow>
   concat (map f (cs[i := c])) = concat (map f (take i cs)) @ f c @ concat (map f (drop (Suc i) cs))"
  by (simp add: upd_conv_take_nth_drop)

lemma concat_map_nth:
  "i < length cs \<Longrightarrow>
   concat (map f cs) = concat (map f (take i cs)) @ f (cs ! i) @ concat (map f (drop (Suc i) cs))"
  using concat_map_update [of i cs f "cs ! i"] by simp

lemma files_of_append_empty:
  "files_of nd = [] \<Longrightarrow> files_of (append_at pos nd t) = files_of t"
proof (induction pos nd t rule: append_at.induct)
  case (2 i "is" ch n p cs)
  then show ?case
    by (auto simp: concat_map_update concat_map_nth [of i cs files_of])
qed auto

lemma files_of_append_at:
  "is_dir_at pos t \<Longrightarrow>
   mset (files_of (append_at pos nd t)) = mset (files_of t) + mset (files_of nd)"
proof (induction pos nd t rule: append_at.induct)
  case (2 i "is" ch n p cs)
  then have "i < length cs" and "is_dir_at is (cs ! i)"
    by (auto simp: is_dir_at_Cons)
  with 2 show ?case
    by (simp add: concat_map_update concat_map_nth [of i cs files_of])
next
  case (3 pos ch n p h)
  then show ?case by (cases pos) (auto simp: is_dir_at_def)
qed auto

lemma get_at_append_at_other:
  "is_dir_at q t \<Longrightarrow> is_dir_at q (append_at pos nd t)"
proof (induction pos nd t arbitrary: q rule: append_at.induct)
  case (1 ch n p cs)
  then show ?case
    by (cases q) (auto simp: is_dir_at_Cons nth_append)
next
  case (2 i "is" ch n p cs)
  show ?case
  proof (cases q)
    case Nil
    then show ?thesis by simp
  next
    case (Cons j js)
    with 2 show ?thesis
      by (cases "i = j") (auto simp: is_dir_at_Cons)
  qed
next
  case (3 pos ch n p h)
  then show ?case by simp
qed

lemma is_dir_at_new:
  "is_dir_at pos t \<Longrightarrow>
   is_dir_at (pos @ [nchildren pos t]) (append_at pos (DirNode n p []) t)"
proof (induction pos "DirNode n p []" t rule: append_at.induct)
  case (1 n' p' cs)
  then show ?case by (simp add: is_dir_at_Cons nchildren_def)
next
  case (2 i "is" n' p' cs)
  then have "i < length cs" and "is_dir_at is (cs ! i)"
    by (auto simp: is_dir_at_Cons)
  with 2 show ?case
    by (simp add: is_dir_at_Cons nchildren_def)
next
  case (3 pos n' p' h)
  then show ?case by (cases pos) (auto simp: is_dir_at_def)
qed

lemma out_html_of_rel:
  "rel \<noteq> [] \<Longrightarrow> out_html_of out rel = out @ butlast rel @ [with_suffix (last rel) ''.html'']"
  by (simp add: out_html_of_def butlast_append)

lemma relative_to_out_html:
  "rel \<noteq> [] \<Longrightarrow>
   relative_to (out_html_of out rel) out = Some (butlast rel @ [with_suffix (last rel) ''.html''])"
  by (simp add: out_html_of_rel relative_to_def)

lemma ensure_dirs_props:
  assumes "\<forall>k pos. dir_map s k = Some pos \<longrightarrow> is_dir_at pos (root s)"
    and "is_dir_at parent_node (root s)"
  shows "(\<forall>k pos. dir_map (ensure_dirs e rel i ps cur parent_node s) k = Some pos
            \<longrightarrow> is_dir_at pos (root (ensure_dirs e rel i ps cur parent_node s)))
       \<and> (\<forall>k. dir_map s k \<noteq> None \<longrightarrow> dir_map (ensure_dirs e rel i ps cur parent_node s) k \<noteq> None)
       \<and> (ps \<noteq> [] \<longrightarrow> dir_map (ensure_dirs e rel i ps cur parent_node s) (resolve_str e (cur @ ps)) \<noteq> None)
       \<and> files_of (root (ensure_dirs e rel i ps cur parent_node s)) = files_of (root s)
       \<and> nb_count (ensure_dirs e rel i ps cur parent_node s) = nb_count s
       \<and> fx (ensure_dirs e rel i ps cur parent_node s) = fx s"
  using assms
proof (induction ps arbitrary: i cur parent_node s)
  case Nil
  then show ?case by simp
next
  case (Cons p ps)
  let ?key = "resolve_str e (cur @ [p])"
  show ?case
  proof (cases "dir_map s ?key")
    case None
    let ?nd = "DirNode p (rel_str (take (i + 1) rel)) []"
    let ?pos = "parent_node @ [nchildren parent_node (root s)]"
    let ?s = "s\<lparr>root := append_at parent_node ?nd (root s), dir_map := (dir_map s)(?key \<mapsto> ?pos)\<rparr>"
    have step: "ensure_dirs e rel i (p # ps) cur parent_node s
                = ensure_dirs e rel (i + 1) ps (cur @ [p]) ?pos ?s"
      using None by (simp add: Let_def)
    have a: "\<forall>k pos. dir_map ?s k = Some pos \<longrightarrow> is_dir_at pos (root ?s)"
      using Cons.prems by (auto simp: is_dir_at_new get_at_append_at_other)
    have b: "is_dir_at ?pos (root ?s)"
      using Cons.prems by (simp add: is_dir_at_new)
    note IH = Cons.IH [OF a b, of "i + 1" "cur @ [p]"]
    have f: "files_of (root ?s) = files_of (root s)"
      by (simp add: files_of_append_empty)
    show ?thesis
    proof (cases ps)
      case Nil
      then show ?thesis using step a f by (auto simp: Let_def)
    next
      case (Cons q qs)
      then show ?thesis unfolding step using IH f by auto
    qed
  next
    case (Some pos)
    have step: "ensure_dirs e rel i (p # ps) cur parent_node s
                = ensure_dirs e rel (i + 1) ps (cur @ [p]) pos s"
      using Some by (simp add: Let_def)
    have b: "is_dir_at pos (root s)" using Cons.prems Some by blast
    note IH = Cons.IH [OF Cons.prems(1) b, of "i + 1" "cur @ [p]"]
    show ?thesis
    proof (cases ps)
      case Nil
      then show ?thesis using step Some Cons.prems by auto
    next
      case (Cons q qs)
      then show ?thesis unfolding step using IH by auto
    qed
  qed
qed

lemma is_dir_at_root: "is_dir_at pos t \<Longrightarrow> is_dir_at [] t"
  by (cases pos) (auto simp: is_dir_at_Cons)

lemma visit_inside_out: "inside_out src out rel \<Longrightarrow> visit e src out execute rel s = (None, s)"
  by (simp add: visit_def inside_out_def)

lemma visit_skip:
  assumes "\<not> converted e src out rel" and "wf_state e src s"
  shows "\<exists>s'. visit e src out execute rel s = (None, s') \<and> wf_state e src s'
           \<and> fx s' = fx s \<and> nb_count s' = nb_count s \<and> files_of (root s') = files_of (root s)"
proof (cases "inside_out src out rel \<or> rel = []")
  case True
  then have "visit e src out execute rel s = (None, s)"
    by (auto simp: visit_def inside_out_def)
  with assms show ?thesis by simp
next
  case False
  let ?ps = "if \<not> is_dir e (src @ rel) then butlast rel else rel"
  let ?s1 = "ensure_dirs e rel 0 ?ps src [] s"
  from assms(2) obtain pos where "dir_map s (resolve_str e src) = Some pos"
    by (auto simp: wf_state_def)
  with assms(2) have r: "is_dir_at [] (root s)"
    using is_dir_at_root by (auto simp: wf_state_def)
  have a: "\<forall>k pos. dir_map s k = Some pos \<longrightarrow> is_dir_at pos (root s)"
    using assms(2) by (simp add: wf_state_def)
  note P = ensure_dirs_props [OF a r, of e rel 0 ?ps src]
  have nn: "\<not> is_notebook e src rel" using assms(1) False by (simp add: converted_def)
  have v: "visit e src out execute rel s = (None, ?s1)"
    using False nn by (auto simp: visit_def inside_out_def is_notebook_def Let_def)
  have "wf_state e src ?s1"
    using P assms(2) unfolding wf_state_def by blast
  with v P show ?thesis by simp
qed

lemma visit_converted:
  assumes "converted e src out rel" and "wf_state e src s"
  shows "\<exists>s'. visit e src out execute rel s =
            ((if conv_ok e (convert_cmd e src out execute rel) then None
              else Some (CalledProcessError (convert_cmd e src out execute rel))), s')
           \<and> fx s' = fx s @ conv_fx e src out execute rel
           \<and> (conv_ok e (convert_cmd e src out execute rel) \<longrightarrow>
                wf_state e src s' \<and> nb_count s' = nb_count s + 1
                \<and> mset (files_of (root s')) = mset (files_of (root s)) + {#file_node_of rel#})"
proof -
  from assms(1) have io: "\<not> inside_out src out rel" and ne: "rel \<noteq> []"
    and nd: "\<not> is_dir e (src @ rel)"
    and sf: "lower (suffix_of (path_name (src @ rel))) = ''.ipynb''"
    by (auto simp: converted_def is_notebook_def)
  let ?s1 = "ensure_dirs e rel 0 (butlast rel) src [] s"
  let ?cmd = "convert_cmd e src out execute rel"
  let ?s2 = "?s1\<lparr>nb_count := nb_count ?s1 + 1,
                  fx := fx ?s1 @ [Mkdir (parent (out_html_of out rel)), Run ?cmd]\<rparr>"
  from assms(2) obtain pos0 where p0: "dir_map s (resolve_str e src) = Some pos0"
    by (auto simp: wf_state_def)
  with assms(2) have r: "is_dir_at [] (root s)"
    using is_dir_at_root by (auto simp: wf_state_def)
  have a: "\<forall>k pos. dir_map s k = Some pos \<longrightarrow> is_dir_at pos (root s)"
    using assms(2) by (simp add: wf_state_def)
  note P = ensure_dirs_props [OF a r, of e rel 0 "butlast rel" src]
  have wf1: "wf_state e src ?s1"
    using P assms(2) unfolding wf_state_def by blast
  have "dir_map ?s1 (resolve_str e (parent (src @ rel))) \<noteq> None"
  proof (cases "butlast rel = []")
    case True
    then have "parent (src @ rel) = src" using ne by (simp add: parent_def butlast_append)
    with wf1 show ?thesis by (simp add: wf_state_def)
  next
    case False
    have "parent (src @ rel) = src @ butlast rel" using ne by (simp add: parent_def butlast_append)
    with P False show ?thesis by simp
  qed
  then obtain pos where pos: "dir_map ?s1 (resolve_str e (parent (src @ rel))) = Some pos"
    by blast
  then have dpos: "is_dir_at pos (root ?s1)" using P by blast
  show ?thesis
  proof (cases "conv_ok e ?cmd")
    case False
    have "visit e src out execute rel s = (Some (CalledProcessError ?cmd), ?s2)"
      using io ne nd sf False by (simp add: visit_def inside_out_def Let_def)
    with False P show ?thesis by (simp add: conv_fx_def)
  next
    case True
    let ?s3 = "?s2\<lparr>root := append_at pos (file_node_of rel) (root ?s2)\<rparr>"
    have v: "visit e src out execute rel s = (None, ?s3)"
      using io ne nd sf True pos
      by (simp add: visit_def inside_out_def Let_def relative_to_out_html file_node_of_def)
    have wf3: "wf_state e src ?s3"
      using wf1 unfolding wf_state_def by (auto simp: get_at_append_at_other dpos)
    have "mset (files_of (root ?s3)) = mset (files_of (root s)) + {#file_node_of rel#}"
      using files_of_append_at [OF dpos, of "file_node_of rel"] P
      by (simp add: file_node_of_def)
    with v wf3 True P show ?thesis by (simp add: conv_fx_def)
  qed
qed

lemma walk_append:
  "walk e src out execute (xs @ ys) s =
     (case walk e src out execute xs s of
        (Some err, s') \<Rightarrow> (Some err, s')
      | (None, s') \<Rightarrow> walk e src out execute ys s')"
  by (induction xs arbitrary: s) (auto split: prod.splits option.splits)

lemma walk_ok:
  assumes "wf_state e src s"
    and "\<forall>x \<in> set rels. converted e src out x \<longrightarrow> conv_ok e (convert_cmd e src out execute x)"
  shows "\<exists>s'. walk e src out execute rels s = (None, s') \<and> wf_state e src s'
           \<and> fx s' = fx s @ concat (map (conv_fx e src out execute) (filter (converted e src out) rels))
           \<and> nb_count s' = nb_count s + length (filter (converted e src out) rels)
           \<and> mset (files_of (root s')) =
               mset (files_of (root s)) + mset (map file_node_of (filter (converted e src out) rels))"
  using assms
proof (induction rels arbitrary: s)
  case Nil
  then show ?case by simp
next
  case (Cons rel rels)
  show ?case
  proof (cases "converted e src out rel")
    case True
    then have ok: "conv_ok e (convert_cmd e src out execute rel)" using Cons.prems by simp
    from visit_converted [OF True Cons.prems(1), of execute] ok
    obtain s1 where v: "visit e src out execute rel s = (None, s1)"
      and f: "fx s1 = fx s @ conv_fx e src out execute rel"
      and w: "wf_state e src s1" and n: "nb_count s1 = nb_count s + 1"
      and m: "mset (files_of (root s1)) = mset (files_of (root s)) + {#file_node_of rel#}"
      by auto
    from Cons.IH [OF w] Cons.prems(2)
    obtain s' where "walk e src out execute rels s1 = (None, s')" "wf_state e src s'"
      "fx s' = fx s1 @ concat (map (conv_fx e src out execute) (filter (converted e src out) rels))"
      "nb_count s' = nb_count s1 + length (filter (converted e src out) rels)"
      "mset (files_of (root s')) =
         mset (files_of (root s1)) + mset (map file_node_of (filter (converted e src out) rels))"
      by auto
    with v f n m True show ?thesis by simp
  next
    case False
    from visit_skip [OF False Cons.prems(1), of execute]
    obtain s1 where v: "visit e src out execute rel s = (None, s1)"
      and f: "fx s1 = fx s" and w: "wf_state e src s1" and n: "nb_count s1 = nb_count s"
      and m: "files_of (root s1) = files_of (root s)"
      by auto
    from Cons.IH [OF w] Cons.prems(2)
    obtain s' where "walk e src out execute rels s1 = (None, s')" "wf_state e src s'"
      "fx s' = fx s1 @ concat (map (conv_fx e src out execute) (filter (converted e src out) rels))"
      "nb_count s' = nb_count s1 + length (filter (converted e src out) rels)"
      "mset (files_of (root s')) =
         mset (files_of (root s1)) + mset (map file_node_of (filter (converted e src out) rels))"
      by auto
    with v f n m False show ?thesis by simp
  qed
qed

lemma walk_fail:
  assumes "wf_state e src s"
    and "\<forall>x \<in> set pre. converted e src out x \<longrightarrow> conv_ok e (convert_cmd e src out execute x)"
    and "converted e src out rel"
    and "\<not> conv_ok e (convert_cmd e src out execute rel)"
  shows "\<exists>s'. walk e src out execute (pre @ rel # post) s
              = (Some (CalledProcessError (convert_cmd e src out execute rel)), s')
           \<and> fx s' = fx s
                @ concat (map (conv_fx e src out execute) (filter (converted e src out) pre))
                @ conv_fx e src out execute rel"
proof -
  from walk_ok [OF assms(1,2)]
  obtain s1 where w: "walk e src out execute pre s = (None, s1)" and wf: "wf_state e src s1"
    and f: "fx s1 = fx s @ concat (map (conv_fx e src out execute) (filter (converted e src out) pre))"
    by auto
  from visit_converted [OF assms(3) wf, of execute] assms(4)
  obtain s2 where "visit e src out execute rel s1
      = (Some (CalledProcessError (convert_cmd e src out execute rel)), s2)"
    and "fx s2 = fx s1 @ conv_fx e src out execute rel"
    by auto
  with w f show ?thesis by (simp add: walk_append)
qed

lemma wf_init_state: "wf_state e src (init_state e src)"
  by (simp add: wf_state_def init_state_def empty_root_def)

lemma collect_tree_ok:
  assumes "\<forall>x \<in> set (rglob e). converted e src out x \<longrightarrow> conv_ok e (convert_cmd e src out execute x)"
  shows "\<exists>tree. collect_tree e src out execute
            = (Inr (tree, length (walked e src out)),
               concat (map (conv_fx e src out execute) (walked e src out)))
          \<and> mset (files_of tree) = mset (map file_node_of (walked e src out))
          \<and> (walked e src out = [] \<longrightarrow> tree = empty_root src)"
proof -
  from assms have "\<forall>x \<in> set (sort (rglob e)).
      converted e src out x \<longrightarrow> conv_ok e (convert_cmd e src out execute x)"
    by simp
  from walk_ok [OF wf_init_state this]
  obtain s' where w: "walk e src out execute (sort (rglob e)) (init_state e src) = (None, s')"
    and f: "fx s' = concat (map (conv_fx e src out execute) (walked e src out))"
    and n: "nb_count s' = length (walked e src out)"
    and m: "mset (files_of (root s')) = mset (map file_node_of (walked e src out))"
    by (auto simp: init_state_def empty_root_def walked_def)
  show ?thesis
  proof (cases "contains_file (root s')")
    case True
    then have "walked e src out \<noteq> []" using m by (auto simp: contains_file_def)
    with True w f n m show ?thesis
      by (simp add: collect_tree_def prune_correct files_of_prune_spec)
  next
    case False
    then have "files_of (root s') = []" by (simp add: contains_file_def)
    with False w f n m show ?thesis
      by (simp add: collect_tree_def prune_correct empty_root_def)
  qed
qed

lemma collect_tree_fail:
  assumes "sort (rglob e) = pre @ rel # post"
    and "\<forall>x \<in> set pre. converted e src out x \<longrightarrow> conv_ok e (convert_cmd e src out execute x)"
    and "converted e src out rel"
    and "\<not> conv_ok e (convert_cmd e src out execute rel)"
  shows "collect_tree e src out execute
           = (Inl (CalledProcessError (convert_cmd e src out execute rel)),
              concat (map (conv_fx e src out execute) (filter (converted e src out) pre))
                @ conv_fx e src out execute rel)"
proof -
  from walk_fail [OF wf_init_state assms(2,3,4), of post]
  show ?thesis
    by (auto simp: collect_tree_def assms(1) init_state_def)
qed

lemma collect_tree_success_all_ok:
  assumes "collect_tree e src out execute = (Inr r, f)"
  shows "\<forall>x \<in> set (rglob e). converted e src out x \<longrightarrow> conv_ok e (convert_cmd e src out execute x)"
proof (rule ccontr)
  assume "\<not> ?thesis"
  then have "\<exists>x \<in> set (sort (rglob e)).
      converted e src out x \<and> \<not> conv_ok e (convert_cmd e src out execute x)"
    by auto
  from split_list_first_prop [OF this]
  obtain pre rel post where "sort (rglob e) = pre @ rel # post"
    and "converted e src out rel \<and> \<not> conv_ok e (convert_cmd e src out execute rel)"
    and "\<forall>y \<in> set pre. \<not> (converted e src out y \<and> \<not> conv_ok e (convert_cmd e src out execute y))"
    by blast
  then have "fst (collect_tree e src out execute)
      = Inl (CalledProcessError (convert_cmd e src out execute rel))"
    using collect_tree_fail [of e pre rel post src out execute] by auto
  with assms show False by simp
qed

lemma length_walked: "length (walked e src out) = length (filter (converted e src out) (rglob e))"
proof -
  have "mset (walked e src out) = mset (filter (converted e src out) (rglob e))"
    by (simp add: walked_def)
  then show ?thesis by (metis size_mset)
qed

text \<open>
  Claim C4. Pruning keeps a directory node if and only if a file node lies below it: the
  result of \<open>prune_empty_dirs\<close> is the tree pruned as the specification words it when the
  tree contains a file node, and \<open>None\<close> otherwise, at every level of the tree. The tree
  that \<open>collect_tree\<close> returns is the tree of the walk pruned in this way, and the root
  node with an empty list of children when the tree of the walk holds no file node. When no
  entry under the source root is converted (no notebook, or notebooks only inside the output
  directory), \<open>collect_tree\<close> returns that empty root and the count 0.
\<close>

theorem prune_keeps_dirs_with_files:
  "prune_empty_dirs t = ((if contains_file t then Some (prune_spec t) else None), contains_file t)
   \<and> (walk e src out execute (sort (rglob e)) (init_state e src) = (None, s) \<longrightarrow>
        collect_tree e src out execute
          = (Inr ((if contains_file (root s) then prune_spec (root s)
                   else DirNode (path_name src) [] []), nb_count s), fx s))
   \<and> ((\<forall>rel \<in> set (rglob e). \<not> converted e src out rel) \<longrightarrow>
        collect_tree e src out execute = (Inr (DirNode (path_name src) [] [], 0), []))"
proof -
  have a: "collect_tree e src out execute
          = (Inr ((if contains_file (root s) then prune_spec (root s)
                   else DirNode (path_name src) [] []), nb_count s), fx s)"
    if "walk e src out execute (sort (rglob e)) (init_state e src) = (None, s)"
    using that by (simp add: collect_tree_def prune_correct empty_root_def)
  have b: "collect_tree e src out execute = (Inr (DirNode (path_name src) [] [], 0), [])"
    if h: "\<forall>rel \<in> set (rglob e). \<not> converted e src out rel"
  proof -
    from h have w: "walked e src out = []"
      by (auto simp: walked_def filter_empty_conv)
    from h have "\<forall>x \<in> set (rglob e). converted e src out x \<longrightarrow> conv_ok e (convert_cmd e src out execute x)"
      by blast
    from collect_tree_ok [OF this] w show ?thesis
      by (auto simp: empty_root_def)
  qed
  from a b show ?thesis by (simp add: prune_correct)
qed

theorem prune_keeps_dirs_with_files_witness:
  "prune_empty_dirs demo_unpruned = (Some demo_tree, True)
   \<and> root (snd (walk prune_env [''src''] [''src'', ''site''] False (sort (rglob prune_env))
                 (init_state prune_env [''src''])))
       = DirNode ''src'' []
           [DirNode ''d'' ''d'' [FileNode ''nb2.ipynb'' ''d/nb2.ipynb'' ''d/nb2.html''],
            DirNode ''e'' ''e'' []]
   \<and> fst (collect_tree prune_env [''src''] [''src'', ''site''] False)
       = Inr (DirNode ''src'' []
               [DirNode ''d'' ''d'' [FileNode ''nb2.ipynb'' ''d/nb2.ipynb'' ''d/nb2.html'']], 1)
   \<and> collect_tree plain_env [''src''] [''src'', ''site''] False
       = (Inr (DirNode ''src'' [] [], 0), [])
   \<and> collect_tree dot_env [''src''] [''src'', ''site''] False
       = (Inr (DirNode ''src'' [] [], 0), [])"
proof -
  let ?w = "walk prune_env [''src''] [''src'', ''site''] False (sort (rglob prune_env))
              (init_state prune_env [''src''])"
  let ?u = "DirNode ''src'' []
           [DirNode ''d'' ''d'' [FileNode ''nb2.ipynb'' ''d/nb2.ipynb'' ''d/nb2.html''],
            DirNode ''e'' ''e'' []]"
  have w1: "fst ?w = None" by code_simp
  have w2: "root (snd ?w) = ?u" by code_simp
  have w3: "nb_count (snd ?w) = 1" by code_simp
  have w: "?w = (None, snd ?w)" using w1 by (simp add: prod_eq_iff)
  have h1: "\<forall>rel \<in> set (rglob plain_env). \<not> converted plain_env [''src''] [''src'', ''site''] rel"
    by code_simp
  have h2: "\<forall>rel \<in> set (rglob dot_env). \<not> converted dot_env [''src''] [''src'', ''site''] rel"
    by code_simp
  have c: "contains_file demo_unpruned" and p: "prune_spec demo_unpruned = demo_tree"
    and n: "path_name [''src''] = ''src''"
    and cu: "contains_file ?u"
    and pu: "prune_spec ?u = DirNode ''src'' []
               [DirNode ''d'' ''d'' [FileNode ''nb2.ipynb'' ''d/nb2.ipynb'' ''d/nb2.html'']]"
    by code_simp+
  note t1 = prune_keeps_dirs_with_files
    [where t = demo_unpruned and e = prune_env and src = "[''src'']"
       and out = "[''src'', ''site'']" and execute = False and s = "snd ?w"]
  from t1 c p have a1: "prune_empty_dirs demo_unpruned = (Some demo_tree, True)" by simp
  from t1 w have "collect_tree prune_env [''src''] [''src'', ''site''] False
      = (Inr ((if contains_file (root (snd ?w)) then prune_spec (root (snd ?w))
               else DirNode (path_name [''src'']) [] []), nb_count (snd ?w)), fx (snd ?w))"
    by blast
  then have a2: "fst (collect_tree prune_env [''src''] [''src'', ''site''] False)
       = Inr (DirNode ''src'' []
               [DirNode ''d'' ''d'' [FileNode ''nb2.ipynb'' ''d/nb2.ipynb'' ''d/nb2.html'']], 1)"
    unfolding w2 w3 using cu pu by simp
  from prune_keeps_dirs_with_files
    [where e = plain_env and src = "[''src'']" and out = "[''src'', ''site'']" and execute = False] h1 n
  have a3: "collect_tree plain_env [''src''] [''src'', ''site''] False
       = (Inr (DirNode ''src'' [] [], 0), [])" by simp
  from prune_keeps_dirs_with_files
    [where e = dot_env and src = "[''src'']" and out = "[''src'', ''site'']" and execute = False] h2 n
  have a4: "collect_tree dot_env [''src''] [''src'', ''site''] False
       = (Inr (DirNode ''src'' [] [], 0), [])" by simp
  from a1 w2 a2 a3 a4 show ?thesis by simp
qed

text \<open>
  Claim C10. When \<open>collect_tree\<close> returns, the count it returns is the number of file
  nodes of the tree it returns, and the number of entries that were converted; pruning
  keeps every file node.
\<close>

theorem notebook_count_is_number_of_file_nodes:
  "collect_tree e src out execute = (Inr (tree, n), f) \<Longrightarrow>
     n = count_files tree
     \<and> n = length (filter (converted e src out) (rglob e))
     \<and> (case fst (prune_empty_dirs t) of None \<Rightarrow> files_of t = [] | Some r \<Rightarrow> files_of r = files_of t)"
proof -
  assume a: "collect_tree e src out execute = (Inr (tree, n), f)"
  from collect_tree_ok [OF collect_tree_success_all_ok [OF a]] a
  have "n = length (walked e src out)"
    and "mset (files_of tree) = mset (map file_node_of (walked e src out))"
    by auto
  then have "n = length (walked e src out)"
    and "size (mset (files_of tree)) = size (mset (map file_node_of (walked e src out)))"
    by simp_all
  then have "n = length (walked e src out)"
    and "length (files_of tree) = length (walked e src out)"
    by simp_all
  then have "n = count_files tree" and "n = length (filter (converted e src out) (rglob e))"
    by (auto simp: count_files_def length_walked)
  moreover have "case fst (prune_empty_dirs t) of None \<Rightarrow> files_of t = [] | Some r \<Rightarrow> files_of r = files_of t"
    by (simp add: prune_correct files_of_prune_spec contains_file_def)
  ultimately show ?thesis by simp
qed

theorem notebook_count_is_number_of_file_nodes_witness:
  "collect_tree demo_env [''src''] [''src'', ''site''] False
     = (Inr (demo_tree, 2), snd (collect_tree demo_env [''src''] [''src'', ''site''] False))
   \<and> count_files demo_tree = 2
   \<and> length (filter (converted demo_env [''src''] [''src'', ''site'']) (rglob demo_env)) = 2
   \<and> files_of demo_tree = files_of demo_unpruned"
proof -
  have "fst (collect_tree demo_env [''src''] [''src'', ''site''] False) = Inr (demo_tree, 2)"
    by code_simp
  then have h: "collect_tree demo_env [''src''] [''src'', ''site''] False
     = (Inr (demo_tree, 2), snd (collect_tree demo_env [''src''] [''src'', ''site''] False))"
    by (simp add: prod_eq_iff)
  have p: "fst (prune_empty_dirs demo_unpruned) = Some demo_tree"
    by code_simp
  from notebook_count_is_number_of_file_nodes [OF h, of demo_unpruned] h p
  show ?thesis by simp
qed

section \<open>Failure of the converter\<close>

text \<open>
  Claim C7. When the converter exits with a non-zero status on a notebook, all conversions
  before it having succeeded, the build ends there with that failure: what it has done to the
  world is the conversions of the earlier notebooks and the call that failed, so no later
  entry of the walk is processed, no further notebook is converted, the output directory is
  not created by the build and no page is written.
\<close>

theorem conversion_failure_aborts_build:
  assumes "sort (rglob e) = pre @ rel # post"
    and "\<forall>x \<in> set pre. converted e src out x \<longrightarrow> conv_ok e (convert_cmd e src out execute x)"
    and "converted e src out rel"
    and "\<not> conv_ok e (convert_cmd e src out execute rel)"
  shows "build_static_site e src out template_dir title execute
           = (Inl (CalledProcessError (convert_cmd e src out execute rel)),
              concat (map (conv_fx e src out execute) (filter (converted e src out) pre))
                @ conv_fx e src out execute rel)"
  using collect_tree_fail [OF assms] by (simp add: build_static_site_def)

theorem conversion_failure_aborts_build_witness:
  "sort (rglob fail_env) = [[''a''], [''a'', ''b'']] @ [''a'', ''b'', ''nb1.ipynb'']
      # [[''a'', ''c''], [''a'', ''c'', ''readme.md''], [''d''], [''d'', ''nb2.ipynb''], [''e'']]
   \<and> read_text fail_env [''tpl'', ''index.html''] = Some ''{{ NBCOUNT }}''
   \<and> build_static_site fail_env [''src''] [''src'', ''site''] [''tpl''] ''Demo'' False
       = (Inl (CalledProcessError
                [''python3'', ''-m'', ''nbconvert'', ''--to'', ''html'',
                 ''--HTMLExporter.embed_images=True'', ''--output'', ''nb1.html'',
                 ''--output-dir'', ''/src/site/a/b'', ''/src/a/b/nb1.ipynb'']),
          [Mkdir [''src'', ''site'', ''a'', ''b''],
           Run [''python3'', ''-m'', ''nbconvert'', ''--to'', ''html'',
                ''--HTMLExporter.embed_images=True'', ''--output'', ''nb1.html'',
                ''--output-dir'', ''/src/site/a/b'', ''/src/a/b/nb1.ipynb'']])"
proof -
  let ?pre = "[[''a''], [''a'', ''b'']]" and ?rel = "[''a'', ''b'', ''nb1.ipynb'']"
  let ?post = "[[''a'', ''c''], [''a'', ''c'', ''readme.md''], [''d''], [''d'', ''nb2.ipynb''], [''e'']]"
  have h1: "sort (rglob fail_env) = ?pre @ ?rel # ?post"
    by code_simp
  have h2: "\<forall>x \<in> set ?pre. converted fail_env [''src''] [''src'', ''site''] x
      \<longrightarrow> conv_ok fail_env (convert_cmd fail_env [''src''] [''src'', ''site''] False x)"
    by code_simp
  have h3: "converted fail_env [''src''] [''src'', ''site''] ?rel"
    by code_simp
  have h4: "\<not> conv_ok fail_env (convert_cmd fail_env [''src''] [''src'', ''site''] False ?rel)"
    by code_simp
  have c: "convert_cmd fail_env [''src''] [''src'', ''site''] False ?rel
      = [''python3'', ''-m'', ''nbconvert'', ''--to'', ''html'',
         ''--HTMLExporter.embed_images=True'', ''--output'', ''nb1.html'',
         ''--output-dir'', ''/src/site/a/b'', ''/src/a/b/nb1.ipynb'']"
    by code_simp
  have f: "filter (converted fail_env [''src''] [''src'', ''site'']) ?pre = []"
    by code_simp
  have m: "parent (out_html_of [''src'', ''site''] ?rel) = [''src'', ''site'', ''a'', ''b'']"
    by code_simp
  have r: "read_text fail_env [''tpl'', ''index.html''] = Some ''{{ NBCOUNT }}''"
    by code_simp
  note b = conversion_failure_aborts_build [OF h1 h2 h3 h4, of "[''tpl'']" "''Demo''"]
  have "build_static_site fail_env [''src''] [''src'', ''site''] [''tpl''] ''Demo'' False
       = (Inl (CalledProcessError
                [''python3'', ''-m'', ''nbconvert'', ''--to'', ''html'',
                 ''--HTMLExporter.embed_images=True'', ''--output'', ''nb1.html'',
                 ''--output-dir'', ''/src/site/a/b'', ''/src/a/b/nb1.ipynb'']),
          [Mkdir [''src'', ''site'', ''a'', ''b''],
           Run [''python3'', ''-m'', ''nbconvert'', ''--to'', ''html'',
                ''--HTMLExporter.embed_images=True'', ''--output'', ''nb1.html'',
                ''--output-dir'', ''/src/site/a/b'', ''/src/a/b/nb1.ipynb'']])"
    using b unfolding f conv_fx_def c m by simp
  with h1 r show ?thesis by simp
qed

section \<open>The output directory inside the source tree\<close>

lemma set_parents: "set (parents p) = {q. strict_prefix q p}"
proof -
  have "set (parents p) = (\<lambda>k. take k p) ` {0..<length p}"
    by (simp add: parents_def)
  also have "\<dots> = {q. strict_prefix q p}"
  proof (rule set_eqI, rule iffI)
    fix q assume "q \<in> (\<lambda>k. take k p) ` {0..<length p}"
    then obtain k where "k < length p" "q = take k p" by auto
    then show "q \<in> {q. strict_prefix q p}"
      by (auto simp: strict_prefix_def take_is_prefix)
  next
    fix q assume "q \<in> {q. strict_prefix q p}"
    then obtain r where "p = q @ r" "r \<noteq> []"
      by (auto simp: strict_prefix_def prefix_def)
    then have "length q < length p" "q = take (length q) p" by auto
    then show "q \<in> (\<lambda>k. take k p) ` {0..<length p}" by (metis atLeastLessThan_iff image_eqI zero_le)
  qed
  finally show ?thesis .
qed

lemma inside_out_iff: "inside_out src out rel \<longleftrightarrow> prefix out (src @ rel)"
  by (auto simp: inside_out_def set_parents strict_prefix_def)

lemma inside_out_prefix:
  "prefix q rel \<Longrightarrow> inside_out src out q \<Longrightarrow> inside_out src out rel"
  unfolding inside_out_iff by (metis prefix_order.order_trans same_prefix_prefix)

lemma ensure_dirs_rglob [simp]:
  "ensure_dirs (e\<lparr>rglob := X\<rparr>) rel i ps cur parent_node s = ensure_dirs e rel i ps cur parent_node s"
  by (induction ps arbitrary: i cur parent_node s) (auto simp: Let_def split: option.splits)

lemma visit_rglob [simp]:
  "visit (e\<lparr>rglob := X\<rparr>) src out execute rel s = visit e src out execute rel s"
  by (simp add: visit_def convert_cmd_def Let_def cong: option.case_cong)

lemma walk_rglob [simp]:
  "walk (e\<lparr>rglob := X\<rparr>) src out execute rels s = walk e src out execute rels s"
  by (induction rels arbitrary: s) (auto split: prod.splits option.splits)

lemma walk_filter_inside_out:
  "walk e src out execute (filter (\<lambda>r. \<not> inside_out src out r) rels) s
     = walk e src out execute rels s"
  by (induction rels arbitrary: s) (auto simp: visit_inside_out split: prod.splits option.splits)

lemma collect_tree_filter_inside_out:
  "collect_tree (e\<lparr>rglob := filter (\<lambda>r. \<not> inside_out src out r) (rglob e)\<rparr>) src out execute
     = collect_tree e src out execute"
proof -
  have "sort (filter (\<lambda>r. \<not> inside_out src out r) (rglob e))
        = filter (\<lambda>r. \<not> inside_out src out r) (sort (rglob e))"
    by (simp add: filter_sort)
  then show ?thesis
    by (simp add: collect_tree_def walk_filter_inside_out init_state_def)
qed

lemma collect_tree_effects:
  "\<exists>xs. prefix xs (walked e src out)
      \<and> snd (collect_tree e src out execute) = concat (map (conv_fx e src out execute) xs)"
proof (cases "\<forall>x \<in> set (rglob e). converted e src out x \<longrightarrow> conv_ok e (convert_cmd e src out execute x)")
  case True
  from collect_tree_ok [OF True] show ?thesis by auto
next
  case False
  then have "\<exists>x \<in> set (sort (rglob e)).
      converted e src out x \<and> \<not> conv_ok e (convert_cmd e src out execute x)"
    by auto
  from split_list_first_prop [OF this]
  obtain pre rel post where s: "sort (rglob e) = pre @ rel # post"
    and r: "converted e src out rel" "\<not> conv_ok e (convert_cmd e src out execute rel)"
    and p: "\<forall>y \<in> set pre. \<not> (converted e src out y \<and> \<not> conv_ok e (convert_cmd e src out execute y))"
    by blast
  from p have p': "\<forall>y \<in> set pre. converted e src out y \<longrightarrow> conv_ok e (convert_cmd e src out execute y)"
    by blast
  have "snd (collect_tree e src out execute)
      = concat (map (conv_fx e src out execute) (filter (converted e src out) pre @ [rel]))"
    using collect_tree_fail [OF s p' r] by simp
  moreover have "prefix (filter (converted e src out) pre @ [rel]) (walked e src out)"
    using r by (simp add: walked_def s)
  ultimately show ?thesis by blast
qed

lemma collect_tree_runs:
  assumes "Run c \<in> set (snd (collect_tree e src out execute))"
  shows "\<exists>rel \<in> set (rglob e). \<not> inside_out src out rel \<and> c = convert_cmd e src out execute rel"
proof -
  from collect_tree_effects obtain xs where x: "prefix xs (walked e src out)"
    and f: "snd (collect_tree e src out execute) = concat (map (conv_fx e src out execute) xs)"
    by blast
  from assms f obtain rel where "rel \<in> set xs" "Run c \<in> set (conv_fx e src out execute rel)"
    by auto
  moreover from x have "set xs \<subseteq> set (walked e src out)" by (rule set_mono_prefix)
  ultimately show ?thesis
    by (auto simp: walked_def converted_def conv_fx_def)
qed

lemma labels_append_at:
  "set (labels (append_at pos nd t)) \<subseteq> set (labels t) \<union> set (labels nd)"
proof (induction pos nd t rule: append_at.induct)
  case (2 i "is" ch n p cs)
  show ?case
  proof (cases "i < length cs")
    case True
    have "set (concat (map labels (cs[i := append_at is ch (cs ! i)])))
        \<subseteq> set (concat (map labels cs)) \<union> set (labels ch)"
      using 2 True
      by (auto simp: concat_map_update concat_map_nth [of i cs labels])
    with True show ?thesis by auto
  next
    case False
    then show ?thesis by auto
  qed
qed auto

lemma labels_prune_spec: "set (labels (prune_spec t)) \<subseteq> set (labels t)"
  by (induction t rule: prune_spec.induct) auto

lemma ensure_dirs_labels:
  assumes "drop i rel = ps @ rest"
  shows "set (labels (root (ensure_dirs e rel i ps cur parent_node s)))
           \<subseteq> set (labels (root s)) \<union> {(last q, rel_str q) | q. q \<noteq> [] \<and> prefix q rel}"
  using assms
proof (induction ps arbitrary: i cur parent_node s)
  case Nil
  then show ?case by simp
next
  case (Cons p ps)
  from Cons.prems have c: "drop i rel = p # (ps @ rest)" by simp
  have i: "i < length rel"
  proof (rule ccontr)
    assume "\<not> i < length rel"
    then have "drop i rel = []" by simp
    with c show False by simp
  qed
  have p: "rel ! i = p" using c by (rule nth_via_drop)
  have "drop (i + 1) rel = tl (drop i rel)" by (simp add: drop_Suc tl_drop)
  with c have d: "drop (i + 1) rel = ps @ rest" by simp
  have t: "take (i + 1) rel = take i rel @ [p]"
    using i p by (simp add: take_Suc_conv_app_nth)
  let ?nd = "DirNode p (rel_str (take (i + 1) rel)) []"
  define q where "q = take (i + 1) rel"
  have a: "prefix q rel" unfolding q_def by (rule take_is_prefix)
  have b: "q \<noteq> []" "last q = p"
    using t unfolding q_def by auto
  have "(p, rel_str q) \<in> {(last q, rel_str q) | q. q \<noteq> [] \<and> prefix q rel}"
    using a b by blast
  then have nl: "set (labels ?nd) \<subseteq> {(last q, rel_str q) | q. q \<noteq> [] \<and> prefix q rel}"
    unfolding q_def by simp
  show ?case
  proof (cases "dir_map s (resolve_str e (cur @ [p]))")
    case None
    let ?s = "s\<lparr>root := append_at parent_node ?nd (root s),
                dir_map := (dir_map s)(resolve_str e (cur @ [p]) \<mapsto>
                  parent_node @ [nchildren parent_node (root s)])\<rparr>"
    have "set (labels (root ?s)) \<subseteq> set (labels (root s)) \<union> set (labels ?nd)"
      using labels_append_at [of parent_node ?nd "root s"] by simp
    with nl Cons.IH [OF d, of "cur @ [p]" "parent_node @ [nchildren parent_node (root s)]" ?s] None
    show ?thesis by (auto simp: Let_def)
  next
    case (Some pos)
    with Cons.IH [OF d, of "cur @ [p]" pos s] show ?thesis by (auto simp: Let_def)
  qed
qed

lemma label_ok_prefix:
  "q \<noteq> [] \<Longrightarrow> prefix q rel \<Longrightarrow> \<not> inside_out src out rel \<Longrightarrow> label_ok src out (last q, rel_str q)"
  unfolding label_ok_def using inside_out_prefix by blast

lemma visit_labels:
  assumes "\<forall>l \<in> set (labels (root s)). label_ok src out l"
  shows "\<forall>l \<in> set (labels (root (snd (visit e src out execute rel s)))). label_ok src out l"
proof (cases "inside_out src out rel \<or> rel = []")
  case True
  then have "visit e src out execute rel s = (None, s)"
    by (auto simp: visit_def inside_out_def)
  with assms show ?thesis by simp
next
  case False
  then have io: "\<not> inside_out src out rel" and ne: "rel \<noteq> []" by auto
  let ?ps = "if \<not> is_dir e (src @ rel) then butlast rel else rel"
  let ?s1 = "ensure_dirs e rel 0 ?ps src [] s"
  have "drop 0 rel = ?ps @ (if \<not> is_dir e (src @ rel) then [last rel] else [])"
    using ne by simp
  from ensure_dirs_labels [OF this, of e src "[]" s]
  have "set (labels (root ?s1))
      \<subseteq> set (labels (root s)) \<union> {(last q, rel_str q) | q. q \<noteq> [] \<and> prefix q rel}" .
  then have l1: "\<forall>l \<in> set (labels (root ?s1)). label_ok src out l"
    using assms label_ok_prefix [OF _ _ io] by blast
  have lf: "label_ok src out (path_name rel, rel_str rel)"
    using label_ok_prefix [of rel rel, OF ne _ io] ne by (simp add: path_name_def)
  have la: "\<forall>l \<in> set (labels (append_at pos (FileNode (path_name rel) (rel_str rel) h) (root ?s1))).
      label_ok src out l" for pos h
    using labels_append_at [of pos "FileNode (path_name rel) (rel_str rel) h" "root ?s1"] l1 lf
    by auto
  show ?thesis
    using io ne l1 la
    by (auto simp: visit_def inside_out_def Let_def split: option.splits)
qed

lemma walk_labels:
  assumes "\<forall>l \<in> set (labels (root s)). label_ok src out l"
  shows "\<forall>l \<in> set (labels (root (snd (walk e src out execute rels s)))). label_ok src out l"
  using assms
proof (induction rels arbitrary: s)
  case Nil
  then show ?case by simp
next
  case (Cons rel rels)
  obtain r s1 where v: "visit e src out execute rel s = (r, s1)" by (cases "visit e src out execute rel s")
  with visit_labels [OF Cons.prems, of e execute rel]
  have l1: "\<forall>l \<in> set (labels (root s1)). label_ok src out l" by simp
  show ?case
  proof (cases r)
    case None
    with v Cons.IH [OF l1] show ?thesis by simp
  next
    case (Some err)
    with v l1 show ?thesis by simp
  qed
qed

lemma collect_tree_labels:
  assumes "fst (collect_tree e src out execute) = Inr (tree, n)"
  shows "\<forall>l \<in> set (labels tree). label_ok src out l"
proof -
  obtain r s where w: "walk e src out execute (sort (rglob e)) (init_state e src) = (r, s)"
    by (cases "walk e src out execute (sort (rglob e)) (init_state e src)")
  have "\<forall>l \<in> set (labels (root (init_state e src))). label_ok src out l"
    by (simp add: init_state_def empty_root_def label_ok_def)
  from walk_labels [OF this, of e execute "sort (rglob e)"] w
  have l: "\<forall>l \<in> set (labels (root s)). label_ok src out l" by simp
  have "tree = empty_root src \<or> tree = prune_spec (root s)"
    using assms w
    by (auto simp: collect_tree_def prune_correct split: option.splits if_splits)
  then show ?thesis
  proof
    assume "tree = empty_root src"
    then show ?thesis by (simp add: empty_root_def label_ok_def)
  next
    assume "tree = prune_spec (root s)"
    with l labels_prune_spec [of "root s"] show ?thesis by blast
  qed
qed

text \<open>
  Claim C9. No entry that is the output directory or lies inside it is processed by the
  walk: leaving all such entries out of the enumeration changes nothing of what
  \<open>collect_tree\<close> returns and does; every conversion that is run is run on an entry that
  is not such an entry; and every node of the returned tree is the root or was made for a
  path that is not such a path.
\<close>

theorem output_directory_is_never_walked:
  "collect_tree (e\<lparr>rglob := filter (\<lambda>r. \<not> inside_out src out r) (rglob e)\<rparr>) src out execute
     = collect_tree e src out execute
   \<and> (\<forall>c. Run c \<in> set (snd (collect_tree e src out execute)) \<longrightarrow>
         (\<exists>rel \<in> set (rglob e). \<not> inside_out src out rel \<and> c = convert_cmd e src out execute rel))
   \<and> (\<forall>tree n. fst (collect_tree e src out execute) = Inr (tree, n) \<longrightarrow>
         (\<forall>l \<in> set (labels tree). label_ok src out l))"
  using collect_tree_filter_inside_out collect_tree_runs collect_tree_labels
  by blast

theorem output_directory_is_never_walked_witness:
  "inside_out [''src''] [''src'', ''site''] [''site'', ''old.ipynb'']
   \<and> collect_tree (site_env\<lparr>rglob := [[''nb.ipynb'']]\<rparr>) [''src''] [''src'', ''site''] False
       = collect_tree site_env [''src''] [''src'', ''site''] False
   \<and> fst (collect_tree site_env [''src''] [''src'', ''site''] False)
       = Inr (DirNode ''src'' [] [FileNode ''nb.ipynb'' ''nb.ipynb'' ''nb.html''], 1)
   \<and> label_ok [''src''] [''src'', ''site''] (''nb.ipynb'', ''nb.ipynb'')"
proof -
  have i: "inside_out [''src''] [''src'', ''site''] [''site'', ''old.ipynb'']"
    by code_simp
  have f: "filter (\<lambda>r. \<not> inside_out [''src''] [''src'', ''site''] r) (rglob site_env) = [[''nb.ipynb'']]"
    by code_simp
  have c: "fst (collect_tree site_env [''src''] [''src'', ''site''] False)
       = Inr (DirNode ''src'' [] [FileNode ''nb.ipynb'' ''nb.ipynb'' ''nb.html''], 1)"
    by code_simp
  note t = output_directory_is_never_walked
    [where e = site_env and src = "[''src'']" and out = "[''src'', ''site'']" and execute = False]
  from t have "collect_tree (site_env\<lparr>rglob := [[''nb.ipynb'']]\<rparr>) [''src''] [''src'', ''site''] False
       = collect_tree site_env [''src''] [''src'', ''site''] False"
    unfolding f by blast
  moreover from t c have "label_ok [''src''] [''src'', ''site''] (''nb.ipynb'', ''nb.ipynb'')"
    by auto
  ultimately show ?thesis using i c by simp
qed

section \<open>Which entries are converted\<close>

lemma suffix_of_drop:
  "suffix_of name \<noteq> [] \<Longrightarrow> \<exists>i < length name. suffix_of name = drop i name"
proof -
  assume "suffix_of name \<noteq> []"
  then obtain i where "rfind CHR ''.'' name = Some i" "0 < i" "i < length name - 1"
    and "suffix_of name = drop i name"
    by (auto simp: suffix_of_def split: option.splits if_splits)
  then have "i < length name \<and> suffix_of name = drop i name" by simp
  then show ?thesis by blast
qed

lemma with_suffix_notebook:
  assumes "lower (suffix_of name) = ''.ipynb''"
  shows "\<exists>stem sfx. name = stem @ sfx \<and> lower sfx = ''.ipynb''
           \<and> with_suffix name ''.html'' = stem @ ''.html''"
proof -
  from assms have ne: "suffix_of name \<noteq> []" by (auto simp: lower_def)
  then obtain i where i: "i < length name" "suffix_of name = drop i name"
    using suffix_of_drop by blast
  then have "with_suffix name ''.html'' = take i name @ ''.html''"
    using ne by (simp add: with_suffix_def Let_def)
  moreover have "name = take i name @ drop i name" by simp
  ultimately show ?thesis using assms i by metis
qed

lemma out_html_of_converted:
  assumes "converted e src out rel"
  shows "\<exists>stem sfx. last rel = stem @ sfx \<and> lower sfx = ''.ipynb''
           \<and> out_html_of out rel = out @ butlast rel @ [stem @ ''.html'']"
proof -
  from assms have ne: "rel \<noteq> []" and "lower (suffix_of (last rel)) = ''.ipynb''"
    by (auto simp: converted_def is_notebook_def path_name_def)
  from with_suffix_notebook [OF this(2)] ne show ?thesis
    by (auto simp: out_html_of_rel)
qed

text \<open>
  Claim C5, as stated, fails: a file named \<open>.ipynb\<close> has no suffix for \<open>Path.suffix\<close>,
  and a notebook inside the output directory is passed over; neither is converted, though
  the name of each ends in the notebook extension.
\<close>

theorem notebooks_converted_once_counterexample:
  "[''.ipynb''] \<in> set (rglob dot_env)
   \<and> \<not> is_dir dot_env [''src'', ''.ipynb'']
   \<and> ends_with_ci ''.ipynb'' ''.ipynb''
   \<and> [''site'', ''old.ipynb''] \<in> set (rglob dot_env)
   \<and> \<not> is_dir dot_env [''src'', ''site'', ''old.ipynb'']
   \<and> ends_with_ci ''old.ipynb'' ''.ipynb''
   \<and> collect_tree dot_env [''src''] [''src'', ''site''] False = (Inr (DirNode ''src'' [] [], 0), [])"
  by code_simp

text \<open>
  Claim C5, amended. When every conversion succeeds, the conversions that are run are, in the
  order of the walk, one for each entry that is not a directory, is neither the output
  directory nor inside it, and whose suffix (its name from the last dot on, that dot being
  neither the first nor the last character of the name) is \<open>.ipynb\<close> without regard to
  case; the document of such an entry is written to the mirrored path under the output root,
  with \<open>.html\<close> in place of the suffix; the count is the number of these entries and the
  file nodes of the tree are theirs. No other entry is converted or has a file node.
\<close>

theorem notebooks_converted_once:
  assumes "\<forall>x \<in> set (rglob e). converted e src out x \<longrightarrow> conv_ok e (convert_cmd e src out execute x)"
  shows "\<exists>tree. collect_tree e src out execute
            = (Inr (tree, length (walked e src out)),
               concat (map (conv_fx e src out execute) (walked e src out)))
          \<and> mset (files_of tree) = mset (map file_node_of (walked e src out))
          \<and> mset (walked e src out) = filter_mset (converted e src out) (mset (rglob e))
          \<and> (\<forall>rel \<in> set (walked e src out).
                \<exists>stem sfx. last rel = stem @ sfx \<and> lower sfx = ''.ipynb''
                  \<and> out_html_of out rel = out @ butlast rel @ [stem @ ''.html''])"
proof -
  from collect_tree_ok [OF assms]
  obtain tree where "collect_tree e src out execute
            = (Inr (tree, length (walked e src out)),
               concat (map (conv_fx e src out execute) (walked e src out)))"
    and "mset (files_of tree) = mset (map file_node_of (walked e src out))"
    by blast
  moreover have "mset (walked e src out) = filter_mset (converted e src out) (mset (rglob e))"
    by (simp add: walked_def)
  moreover have "\<forall>rel \<in> set (walked e src out).
                \<exists>stem sfx. last rel = stem @ sfx \<and> lower sfx = ''.ipynb''
                  \<and> out_html_of out rel = out @ butlast rel @ [stem @ ''.html'']"
    using out_html_of_converted by (auto simp: walked_def)
  ultimately show ?thesis by blast
qed

theorem notebooks_converted_once_witness:
  "walked site_env [''src''] [''src'', ''site''] = [[''nb.ipynb'']]
   \<and> collect_tree site_env [''src''] [''src'', ''site''] False
       = (Inr (DirNode ''src'' [] [FileNode ''nb.ipynb'' ''nb.ipynb'' ''nb.html''], 1),
          conv_fx site_env [''src''] [''src'', ''site''] False [''nb.ipynb''])
   \<and> out_html_of [''src'', ''site''] [''nb.ipynb''] = [''src'', ''site'', ''nb.html'']"
proof -
  have h: "\<forall>x \<in> set (rglob site_env). converted site_env [''src''] [''src'', ''site''] x
      \<longrightarrow> conv_ok site_env (convert_cmd site_env [''src''] [''src'', ''site''] False x)"
    by (simp add: site_env_def demo_env_def)
  have w: "walked site_env [''src''] [''src'', ''site''] = [[''nb.ipynb'']]"
    by code_simp
  have c: "fst (collect_tree site_env [''src''] [''src'', ''site''] False)
      = Inr (DirNode ''src'' [] [FileNode ''nb.ipynb'' ''nb.ipynb'' ''nb.html''], 1)"
    by code_simp
  have o: "out_html_of [''src'', ''site''] [''nb.ipynb''] = [''src'', ''site'', ''nb.html'']"
    by code_simp
  from notebooks_converted_once [OF h] obtain tree where
    "collect_tree site_env [''src''] [''src'', ''site''] False
       = (Inr (tree, length (walked site_env [''src''] [''src'', ''site''])),
          concat (map (conv_fx site_env [''src''] [''src'', ''site''] False)
            (walked site_env [''src''] [''src'', ''site''])))"
    by blast
  with c w o show ?thesis by simp
qed

section \<open>A template directory without index.html\<close>

lemma render_pages_writes:
  "x \<in> set (render_pages e out template_dir title nb tree ps k) \<Longrightarrow>
     \<exists>fname c. x = WriteText (out @ [fname]) c \<and> fname \<in> fst ` set ps"
proof (induction ps arbitrary: k)
  case Nil
  then show ?case by simp
next
  case (Cons pg ps)
  obtain fname needs_tree where pg: "pg = (fname, needs_tree)" by (cases pg)
  show ?case
  proof (cases "read_text e (template_dir @ [fname])")
    case None
    with Cons.prems pg have "x \<in> set (render_pages e out template_dir title nb tree ps k)"
      by simp
    from Cons.IH [OF this] pg show ?thesis by auto
  next
    case (Some src_html)
    with Cons.prems pg have "x = WriteText (out @ [fname])
         (render_tokens (utcnow e k) src_html title nb (if needs_tree then Some tree else None))
       \<or> x \<in> set (render_pages e out template_dir title nb tree ps (k + 1))"
      by (auto simp: Let_def)
    then show ?thesis
    proof
      assume "x \<in> set (render_pages e out template_dir title nb tree ps (k + 1))"
      from Cons.IH [OF this] pg show ?thesis by auto
    next
      assume "x = WriteText (out @ [fname])
         (render_tokens (utcnow e k) src_html title nb (if needs_tree then Some tree else None))"
      with pg show ?thesis by auto
    qed
  qed
qed

lemma copy_tree_no_write: "\<not> is_write_to p x" if "x \<in> set (copy_tree e a b)"
  using that by (auto simp: copy_tree_def is_write_to_def split: option.splits)

lemma collect_tree_no_write:
  "x \<in> set (snd (collect_tree e src out execute)) \<Longrightarrow> \<not> is_write_to p x"
proof -
  assume a: "x \<in> set (snd (collect_tree e src out execute))"
  from collect_tree_effects obtain xs where
    "snd (collect_tree e src out execute) = concat (map (conv_fx e src out execute) xs)"
    by blast
  with a show ?thesis by (auto simp: conv_fx_def is_write_to_def)
qed

text \<open>
  Claim C1, as stated, fails: \<open>build_static_site\<close> does not call \<open>load_template_index\<close>;
  with a template directory that has \<open>software.html\<close> and no \<open>index.html\<close> the build
  returns the count, after the notebook has been converted and \<open>software.html\<close> written.
\<close>

theorem missing_index_is_skipped_counterexample:
  "read_text noindex_env [''tpl'', ''index.html''] = None
   \<and> build_static_site noindex_env [''src''] [''src'', ''site''] [''tpl''] ''Demo'' False
       = (Inr 1,
          [Mkdir [''src'', ''site''],
           Run [''python3'', ''-m'', ''nbconvert'', ''--to'', ''html'',
                ''--HTMLExporter.embed_images=True'', ''--output'', ''nb.html'',
                ''--output-dir'', ''/src/site'', ''/src/nb.ipynb''],
           Mkdir [''src'', ''site''],
           WriteText [''src'', ''site'', ''software.html''] ''1''])"
  by code_simp

text \<open>
  Claim C1, amended. When the template directory has no \<open>index.html\<close>,
  \<open>load_template_index\<close> raises \<open>FileNotFoundError\<close>, but the build, which does not call
  it, does not fail for that: the loop over the pages passes over \<open>index.html\<close> as over
  any missing page, so the build is the build of the three other pages, run after the tree
  has been collected and the notebooks converted, and it writes no \<open>index.html\<close> page.
\<close>

theorem missing_index_is_skipped:
  assumes "read_text e (template_dir @ [''index.html'']) = None"
  shows "load_template_index e template_dir
           = Inl (FileNotFoundError (''Template missing: '' @ path_str (template_dir @ [''index.html''])))
       \<and> build_static_site e src out template_dir title execute
           = (case collect_tree e src out execute of
                (Inl err, fx1) \<Rightarrow> (Inl err, fx1)
              | (Inr (tree, nb), fx1) \<Rightarrow>
                  (Inr nb,
                   fx1 @ [Mkdir out]
                     @ render_pages e out template_dir title nb tree (tl pages) 0
                     @ copy_tree e (template_dir @ [''css'']) (out @ [''css''])
                     @ copy_tree e (template_dir @ [''assets'']) (out @ [''assets''])
                     @ copy_tree e (template_dir @ [''js'']) (out @ [''js''])))
       \<and> \<not> list_ex (is_write_to (out @ [''index.html'']))
             (snd (build_static_site e src out template_dir title execute))"
proof -
  have a: "load_template_index e template_dir
           = Inl (FileNotFoundError (''Template missing: '' @ path_str (template_dir @ [''index.html''])))"
    using assms by (simp add: load_template_index_def)
  have b: "build_static_site e src out template_dir title execute
           = (case collect_tree e src out execute of
                (Inl err, fx1) \<Rightarrow> (Inl err, fx1)
              | (Inr (tree, nb), fx1) \<Rightarrow>
                  (Inr nb,
                   fx1 @ [Mkdir out]
                     @ render_pages e out template_dir title nb tree (tl pages) 0
                     @ copy_tree e (template_dir @ [''css'']) (out @ [''css''])
                     @ copy_tree e (template_dir @ [''assets'']) (out @ [''assets''])
                     @ copy_tree e (template_dir @ [''js'']) (out @ [''js''])))"
    using assms by (simp add: build_static_site_def pages_def split: prod.splits sum.splits)
  have c: "\<not> is_write_to (out @ [''index.html'']) x"
    if "x \<in> set (snd (build_static_site e src out template_dir title execute))" for x
  proof (cases "collect_tree e src out execute")
    case (Pair r fx1)
    show ?thesis
    proof (cases r)
      case (Inl err)
      with Pair that b have "x \<in> set (snd (collect_tree e src out execute))" by simp
      then show ?thesis by (rule collect_tree_no_write)
    next
      case (Inr tn)
      obtain tree nb where tn: "tn = (tree, nb)" by (cases tn)
      from that b Pair Inr tn
      consider "x \<in> set (snd (collect_tree e src out execute))" | "x = Mkdir out"
        | "x \<in> set (render_pages e out template_dir title nb tree (tl pages) 0)"
        | "x \<in> set (copy_tree e (template_dir @ [''css'']) (out @ [''css'']))"
        | "x \<in> set (copy_tree e (template_dir @ [''assets'']) (out @ [''assets'']))"
        | "x \<in> set (copy_tree e (template_dir @ [''js'']) (out @ [''js'']))"
        by auto
      then show ?thesis
      proof cases
        case 1 then show ?thesis by (rule collect_tree_no_write)
      next
        case 2 then show ?thesis by (simp add: is_write_to_def)
      next
        case 3
        from render_pages_writes [OF this] show ?thesis
          by (auto simp: pages_def is_write_to_def)
      next
        case 4 then show ?thesis by (rule copy_tree_no_write)
      next
        case 5 then show ?thesis by (rule copy_tree_no_write)
      next
        case 6 then show ?thesis by (rule copy_tree_no_write)
      qed
    qed
  qed
  then have "\<not> list_ex (is_write_to (out @ [''index.html'']))
             (snd (build_static_site e src out template_dir title execute))"
    by (auto simp: list_ex_iff)
  with a b show ?thesis by blast
qed

theorem missing_index_is_skipped_witness:
  "read_text noindex_env [''tpl'', ''index.html''] = None
   \<and> load_template_index noindex_env [''tpl'']
       = Inl (FileNotFoundError ''Template missing: /tpl/index.html'')
   \<and> \<not> list_ex (is_write_to [''src'', ''site'', ''index.html''])
         (snd (build_static_site noindex_env [''src''] [''src'', ''site''] [''tpl''] ''Demo'' False))"
proof -
  have h: "read_text noindex_env ([''tpl''] @ [''index.html'']) = None"
    by (simp add: noindex_env_def)
  have p: "''Template missing: '' @ path_str ([''tpl''] @ [''index.html''])
      = ''Template missing: /tpl/index.html''"
    by code_simp
  note t = missing_index_is_skipped [OF h, of "[''src'']" "[''src'', ''site'']" "''Demo''" False]
  from t have a: "load_template_index noindex_env [''tpl'']
      = Inl (FileNotFoundError (''Template missing: '' @ path_str ([''tpl''] @ [''index.html''])))"
    by blast
  from t have c: "\<not> list_ex (is_write_to ([''src'', ''site''] @ [''index.html'']))
      (snd (build_static_site noindex_env [''src''] [''src'', ''site''] [''tpl''] ''Demo'' False))"
    by blast
  from a have "load_template_index noindex_env [''tpl'']
      = Inl (FileNotFoundError ''Template missing: /tpl/index.html'')"
    unfolding p .
  with c h show ?thesis by simp
qed

section \<open>The time stamp of the pages\<close>

lemma render_tokens_strftime:
  "strftime t1 = strftime t2 \<Longrightarrow>
   render_tokens t1 src title nb tree = render_tokens t2 src title nb tree"
  by (simp add: render_tokens_def)

lemma render_pages_readings:
  "render_pages e out template_dir title nb tree ps k
     = map (\<lambda>(j, pg). rendered_page e out template_dir title nb tree (utcnow e (k + j)) pg)
         (enumerate 0 (existing_pages e template_dir ps))"
proof (induction ps arbitrary: k)
  case Nil
  then show ?case by (simp add: existing_pages_def)
next
  case (Cons pg ps)
  obtain fname needs_tree where pg: "pg = (fname, needs_tree)" by (cases pg)
  show ?case
  proof (cases "read_text e (template_dir @ [fname])")
    case None
    with Cons [of k] pg show ?thesis by (simp add: existing_pages_def)
  next
    case (Some src_html)
    have "enumerate 0 (existing_pages e template_dir (pg # ps))
        = (0, pg) # enumerate 1 (existing_pages e template_dir ps)"
      using Some pg by (simp add: existing_pages_def)
    moreover have "enumerate 1 (existing_pages e template_dir ps)
        = map (apfst Suc) (enumerate 0 (existing_pages e template_dir ps))"
      using enumerate_Suc_eq [of 0 "existing_pages e template_dir ps"] by simp
    ultimately show ?thesis
      using Cons [of "k + 1"] Some pg
      by (simp add: rendered_page_def Let_def case_prod_unfold o_def)
  qed
qed

text \<open>
  Claim C2, as stated, fails: \<open>render_tokens\<close> reads the clock in every call, and the
  clock may move between two pages of one build.
\<close>

theorem timestamp_read_for_every_page_counterexample:
  "build_static_site tick_env [''src''] [''src'', ''site''] [''tpl''] ''Demo'' False
     = (Inr 0,
        [Mkdir [''src'', ''site''],
         WriteText [''src'', ''site'', ''index.html''] ''2025-03-09 07:00 UTC'',
         WriteText [''src'', ''site'', ''software.html''] ''2025-03-09 07:01 UTC''])"
  by code_simp

text \<open>
  Claim C2, amended. The time stamp is computed once for every rendered page, not once for
  the build: the build writes, for the page number \<open>j\<close> among the pages whose template
  exists, the text rendered with the reading number \<open>j\<close> of the clock. When the readings
  that are taken, one for every page whose template exists, format to one string, every
  page is written with that one time stamp.
\<close>

theorem timestamp_read_for_every_page:
  "build_static_site e src out template_dir title execute
     = (case collect_tree e src out execute of
          (Inl err, fx1) \<Rightarrow> (Inl err, fx1)
        | (Inr (tree, nb), fx1) \<Rightarrow>
            (Inr nb,
             fx1 @ [Mkdir out]
               @ map (\<lambda>(j, pg). rendered_page e out template_dir title nb tree (utcnow e j) pg)
                   (enumerate 0 (existing_pages e template_dir pages))
               @ copy_tree e (template_dir @ [''css'']) (out @ [''css''])
               @ copy_tree e (template_dir @ [''assets'']) (out @ [''assets''])
               @ copy_tree e (template_dir @ [''js'']) (out @ [''js''])))
   \<and> ((\<forall>j < length (existing_pages e template_dir pages). strftime (utcnow e j) = strftime t0) \<longrightarrow>
        render_pages e out template_dir title nb tree pages 0
          = map (rendered_page e out template_dir title nb tree t0)
              (existing_pages e template_dir pages))"
proof -
  have a: "render_pages e out template_dir title nb tree pages 0
     = map (\<lambda>(j, pg). rendered_page e out template_dir title nb tree (utcnow e j) pg)
         (enumerate 0 (existing_pages e template_dir pages))" for nb tree
    using render_pages_readings [of e out template_dir title nb tree pages 0] by simp
  have b: "render_pages e out template_dir title nb tree pages 0
          = map (rendered_page e out template_dir title nb tree t0)
              (existing_pages e template_dir pages)"
    if h: "\<forall>j < length (existing_pages e template_dir pages). strftime (utcnow e j) = strftime t0"
  proof -
    have "rendered_page e out template_dir title nb tree (utcnow e j) pg
        = rendered_page e out template_dir title nb tree t0 pg"
      if "j < length (existing_pages e template_dir pages)" for j pg
      using h that by (simp add: rendered_page_def render_tokens_strftime [of "utcnow e j" t0])
    then have "map (\<lambda>(j, pg). rendered_page e out template_dir title nb tree (utcnow e j) pg)
         (enumerate 0 (existing_pages e template_dir pages))
       = map (\<lambda>(j, pg). rendered_page e out template_dir title nb tree t0 pg)
         (enumerate 0 (existing_pages e template_dir pages))"
      by (intro map_cong refl) (auto simp: in_set_enumerate_eq)
    also have "\<dots> = map (rendered_page e out template_dir title nb tree t0)
         (map snd (enumerate 0 (existing_pages e template_dir pages)))"
      by (simp add: case_prod_unfold o_def del: map_snd_enumerate)
    also have "\<dots> = map (rendered_page e out template_dir title nb tree t0)
         (existing_pages e template_dir pages)"
      by simp
    finally show ?thesis using a by simp
  qed
  show ?thesis
    using b by (simp add: build_static_site_def a split: prod.splits sum.splits)
qed

theorem timestamp_read_for_every_page_witness:
  "existing_pages steady_env [''tpl''] pages = [(''index.html'', False), (''software.html'', True)]
   \<and> strftime (utcnow steady_env 2) = ''2025-03-09 07:06 UTC''
   \<and> render_pages steady_env [''src'', ''site''] [''tpl''] ''Demo'' 0 (DirNode ''src'' [] []) pages 0
       = [WriteText [''src'', ''site'', ''index.html''] ''2025-03-09 07:05 UTC'',
          WriteText [''src'', ''site'', ''software.html''] ''2025-03-09 07:05 UTC'']
   \<and> build_static_site steady_env [''src''] [''src'', ''site''] [''tpl''] ''Demo'' False
       = (Inr 0,
          [Mkdir [''src'', ''site''],
           WriteText [''src'', ''site'', ''index.html''] ''2025-03-09 07:05 UTC'',
           WriteText [''src'', ''site'', ''software.html''] ''2025-03-09 07:05 UTC''])"
proof -
  let ?t0 = "\<lparr>dt_year = 2025, dt_month = 3, dt_day = 9, dt_hour = 7, dt_minute = 5\<rparr>"
  have x: "existing_pages steady_env [''tpl''] pages
      = [(''index.html'', False), (''software.html'', True)]"
    by code_simp
  have h: "\<forall>j < length (existing_pages steady_env [''tpl''] pages).
      strftime (utcnow steady_env j) = strftime ?t0"
    unfolding x by (simp add: steady_env_def)
  have s2: "strftime (utcnow steady_env 2) = ''2025-03-09 07:06 UTC''"
    by code_simp
  have r: "map (rendered_page steady_env [''src'', ''site''] [''tpl''] ''Demo'' 0
               (DirNode ''src'' [] []) ?t0)
             [(''index.html'', False), (''software.html'', True)]
       = [WriteText [''src'', ''site'', ''index.html''] ''2025-03-09 07:05 UTC'',
          WriteText [''src'', ''site'', ''software.html''] ''2025-03-09 07:05 UTC'']"
    by code_simp
  have c: "collect_tree steady_env [''src''] [''src'', ''site''] False
      = (Inr (DirNode ''src'' [] [], 0), [])"
    by code_simp
  have k: "copy_tree steady_env ([''tpl''] @ [''css'']) ([''src'', ''site''] @ [''css'']) = []"
    "copy_tree steady_env ([''tpl''] @ [''assets'']) ([''src'', ''site''] @ [''assets'']) = []"
    "copy_tree steady_env ([''tpl''] @ [''js'']) ([''src'', ''site''] @ [''js'']) = []"
    by code_simp+
  note t = timestamp_read_for_every_page
    [where e = steady_env and src = "[''src'']" and out = "[''src'', ''site'']"
       and template_dir = "[''tpl'']" and title = "''Demo''" and execute = False
       and ?t0.0 = ?t0 and nb = 0 and tree = "DirNode ''src'' [] []"]
  from t h have p: "render_pages steady_env [''src'', ''site''] [''tpl''] ''Demo'' 0
        (DirNode ''src'' [] []) pages 0
      = map (rendered_page steady_env [''src'', ''site''] [''tpl''] ''Demo'' 0
               (DirNode ''src'' [] []) ?t0)
          (existing_pages steady_env [''tpl''] pages)"
    by blast
  then have p': "render_pages steady_env [''src'', ''site''] [''tpl''] ''Demo'' 0
        (DirNode ''src'' [] []) pages 0
       = [WriteText [''src'', ''site'', ''index.html''] ''2025-03-09 07:05 UTC'',
          WriteText [''src'', ''site'', ''software.html''] ''2025-03-09 07:05 UTC'']"
    unfolding x r .
  have "build_static_site steady_env [''src''] [''src'', ''site''] [''tpl''] ''Demo'' False
       = (Inr 0,
          [Mkdir [''src'', ''site''],
           WriteText [''src'', ''site'', ''index.html''] ''2025-03-09 07:05 UTC'',
           WriteText [''src'', ''site'', ''software.html''] ''2025-03-09 07:05 UTC''])"
    using p' c k by (simp add: build_static_site_def)
  with x s2 p' show ?thesis by simp
qed

section \<open>Substitution pass by pass\<close>

lemma strip_prefix_Some_iff: "strip_prefix p s = Some r \<longleftrightarrow> s = p @ r"
  by (induction p s rule: strip_prefix.induct) auto

lemma strip_prefix_None_iff: "strip_prefix p s = None \<longleftrightarrow> \<not> prefix p s"
  by (induction p s rule: strip_prefix.induct) auto

lemma not_space_braces [simp]: "\<not> is_space CHR ''{''" "\<not> is_space CHR ''}''"
  by (simp_all add: is_space_def)

lemma match_token_D:
  assumes "match_token nm s = Some r"
  shows "\<exists>w1 w2. s = ''{{'' @ w1 @ nm @ w2 @ ''}}'' @ r
           \<and> (\<forall>c \<in> set w1. is_space c) \<and> (\<forall>c \<in> set w2. is_space c)"
proof -
  from assms obtain s1 s2 where a: "s = ''{{'' @ s1"
    and b: "dropWhile is_space s1 = nm @ s2"
    and c: "dropWhile is_space s2 = ''}}'' @ r"
    by (auto simp: match_token_def strip_prefix_Some_iff split: option.splits)
  have "s1 = takeWhile is_space s1 @ dropWhile is_space s1" by simp
  moreover have "s2 = takeWhile is_space s2 @ dropWhile is_space s2" by simp
  ultimately have "s = ''{{'' @ takeWhile is_space s1 @ nm @ takeWhile is_space s2 @ ''}}'' @ r"
    using a b c by (metis append.assoc)
  moreover have "\<forall>c \<in> set (takeWhile is_space s1). is_space c"
    and "\<forall>c \<in> set (takeWhile is_space s2). is_space c"
    by (auto dest: set_takeWhileD)
  ultimately show ?thesis by blast
qed

lemma dropWhile_spaces:
  "\<forall>c \<in> set w. is_space c \<Longrightarrow> \<not> is_space x \<Longrightarrow>
   dropWhile is_space (w @ x # xs) = x # xs"
  by (induction w) auto

lemma match_token_I:
  assumes "name_ok nm" and "\<forall>c \<in> set w1. is_space c" and "\<forall>c \<in> set w2. is_space c"
  shows "match_token nm (''{{'' @ w1 @ nm @ w2 @ ''}}'' @ r) = Some r"
proof -
  from assms(1) obtain x xs where nm: "nm = x # xs" and x: "\<not> is_space x"
    by (cases nm) (auto simp: name_ok_def)
  have "dropWhile is_space (w1 @ nm @ w2 @ ''}}'' @ r) = nm @ w2 @ ''}}'' @ r"
    using dropWhile_spaces [OF assms(2) x, of "xs @ w2 @ ''}}'' @ r"] nm by simp
  moreover have "dropWhile is_space (w2 @ ''}}'' @ r) = ''}}'' @ r"
    using dropWhile_spaces [OF assms(3), of "CHR ''}''" "CHR ''}'' # r"] by simp
  moreover have "strip_prefix nm (nm @ w2 @ ''}}'' @ r) = Some (w2 @ ''}}'' @ r)"
    by (simp add: strip_prefix_Some_iff)
  moreover have "strip_prefix ''{{'' (''{{'' @ w1 @ nm @ w2 @ ''}}'' @ r)
      = Some (w1 @ nm @ w2 @ ''}}'' @ r)"
    by simp
  moreover have "strip_prefix ''}}'' (''}}'' @ r) = Some r"
    by simp
  ultimately show ?thesis
    unfolding match_token_def by (simp del: strip_prefix.simps append.simps)
qed

lemma match_token_extend:
  assumes "name_ok nm" and "match_token nm s = Some r"
  shows "match_token nm (s @ x) = Some (r @ x)"
proof -
  from match_token_D [OF assms(2)] obtain w1 w2 where
    s: "s = ''{{'' @ w1 @ nm @ w2 @ ''}}'' @ r"
    and w: "\<forall>c \<in> set w1. is_space c" "\<forall>c \<in> set w2. is_space c"
    by blast
  have "s @ x = ''{{'' @ w1 @ nm @ w2 @ ''}}'' @ (r @ x)" using s by simp
  then show ?thesis using match_token_I [OF assms(1) w, of "r @ x"] by simp
qed

text \<open>The text of a match, after its two opening braces, has no opening brace.\<close>

lemma no_brace_prefix:
  assumes "a @ CHR ''{'' # z = m @ r" and "CHR ''{'' \<notin> set m"
  shows "\<exists>r'. a = m @ r'"
  using assms
proof (induction m arbitrary: a)
  case Nil
  then show ?case by simp
next
  case (Cons c m)
  then obtain a' where "a = c # a'" by (cases a) auto
  with Cons show ?case by auto
qed

lemma match_token_no_straddle:
  assumes "name_ok nm" and "a \<noteq> []" and "match_token nm a = None"
  shows "match_token nm (a @ CHR ''{'' # CHR ''{'' # z) = None"
proof (rule ccontr)
  assume "match_token nm (a @ CHR ''{'' # CHR ''{'' # z) \<noteq> None"
  then obtain r where "match_token nm (a @ CHR ''{'' # CHR ''{'' # z) = Some r" by blast
  from match_token_D [OF this] obtain w1 w2 where
    e: "a @ CHR ''{'' # CHR ''{'' # z = ''{{'' @ w1 @ nm @ w2 @ ''}}'' @ r"
    and w: "\<forall>c \<in> set w1. is_space c" "\<forall>c \<in> set w2. is_space c"
    by blast
  let ?m = "w1 @ nm @ w2 @ ''}}''"
  have nb: "CHR ''{'' \<notin> set ?m"
    using assms(1) w by (auto simp: name_ok_def)
  have mne: "?m \<noteq> []" by simp
  show False
  proof (cases a)
    case Nil
    with assms(2) show False by simp
  next
    case (Cons c1 a1)
    show False
    proof (cases a1)
      case Nil
      with Cons e have "CHR ''{'' # z = ?m @ r" by simp
      then have "hd ?m = CHR ''{''" using mne by (metis hd_append2 list.sel(1))
      with nb mne show False by (metis hd_in_set)
    next
      case (Cons c2 a2)
      with \<open>a = c1 # a1\<close> e have c: "c1 = CHR ''{''" "c2 = CHR ''{''"
        and "a2 @ CHR ''{'' # (CHR ''{'' # z) = ?m @ r"
        by auto
      from no_brace_prefix [OF this(3) nb] obtain r' where "a2 = ?m @ r'" by blast
      with c Cons \<open>a = c1 # a1\<close> have "a = ''{{'' @ w1 @ nm @ w2 @ ''}}'' @ r'" by simp
      then have "match_token nm a = Some r'"
        using match_token_I [OF assms(1) w, of r'] by simp
      with assms(3) show False by simp
    qed
  qed
qed

lemma re_sub_token_Nil [simp]: "re_sub_token nm v [] = []"
  by (simp add: re_sub_token.simps)

lemma re_sub_token_match:
  "s \<noteq> [] \<Longrightarrow> match_token nm s = Some rest \<Longrightarrow>
   re_sub_token nm v s = v @ re_sub_token nm v rest"
  by (subst re_sub_token.simps) simp

lemma re_sub_token_step:
  "match_token nm (c # cs) = None \<Longrightarrow> re_sub_token nm v (c # cs) = c # re_sub_token nm v cs"
  by (subst re_sub_token.simps) simp

lemma match_token_needs_brace: "c \<noteq> CHR ''{'' \<Longrightarrow> match_token nm (c # cs) = None"
  by (simp add: match_token_def)

lemma re_sub_token_no_brace:
  "CHR ''{'' \<notin> set u \<Longrightarrow> re_sub_token nm v (u @ b) = u @ re_sub_token nm v b"
  by (induction u) (auto simp: re_sub_token_step match_token_needs_brace)

lemma re_sub_token_same:
  assumes "name_ok nm" and "match_token nm t = Some []"
  shows "re_sub_token nm v (t @ b) = v @ re_sub_token nm v b"
proof -
  from match_token_D [OF assms(2)] have "t \<noteq> []" by auto
  moreover have "match_token nm (t @ b) = Some b"
    using match_token_extend [OF assms, of b] by simp
  ultimately show ?thesis by (simp add: re_sub_token_match)
qed

lemma re_sub_token_other:
  assumes "name_ok nm" and "name_ok nm2" and "\<not> prefix nm nm2" and "\<not> prefix nm2 nm"
    and "match_token nm2 t = Some []"
  shows "re_sub_token nm v (t @ b) = t @ re_sub_token nm v b"
proof -
  from match_token_D [OF assms(5)] obtain w1 w2 where
    t: "t = ''{{'' @ w1 @ nm2 @ w2 @ ''}}''"
    and w: "\<forall>c \<in> set w1. is_space c" "\<forall>c \<in> set w2. is_space c"
    by auto
  let ?m = "w1 @ nm2 @ w2 @ ''}}''"
  have nb: "CHR ''{'' \<notin> set ?m"
    using assms(2) w by (auto simp: name_ok_def)
  from assms(2) obtain x xs where nm2: "nm2 = x # xs" and x: "\<not> is_space x"
    by (cases nm2) (auto simp: name_ok_def)
  have d: "dropWhile is_space (?m @ b) = nm2 @ w2 @ ''}}'' @ b"
    using dropWhile_spaces [OF w(1) x, of "xs @ w2 @ ''}}'' @ b"] nm2 by simp
  have "\<not> prefix nm (nm2 @ w2 @ ''}}'' @ b)"
  proof
    assume "prefix nm (nm2 @ w2 @ ''}}'' @ b)"
    then have "prefix nm nm2 \<or> (\<exists>us. nm = nm2 @ us)"
      unfolding prefix_append by blast
    with assms(3,4) show False by auto
  qed
  then have "strip_prefix nm (nm2 @ w2 @ ''}}'' @ b) = None"
    by (simp add: strip_prefix_None_iff)
  moreover have "strip_prefix ''{{'' (CHR ''{'' # CHR ''{'' # ?m @ b) = Some (?m @ b)"
    by simp
  ultimately have m1: "match_token nm (CHR ''{'' # CHR ''{'' # ?m @ b) = None"
    unfolding match_token_def using d by (simp del: strip_prefix.simps append.simps)
  have "?m \<noteq> []" by simp
  then obtain y ys where m: "?m = y # ys" by (cases ?m) auto
  with nb have "y \<noteq> CHR ''{''" by (metis list.set_intros(1))
  then have m2: "match_token nm (CHR ''{'' # ?m @ b) = None"
    unfolding m by (simp add: match_token_def)
  have "re_sub_token nm v (t @ b) = CHR ''{'' # re_sub_token nm v (CHR ''{'' # ?m @ b)"
    using re_sub_token_step [OF m1] t by simp
  also have "\<dots> = CHR ''{'' # CHR ''{'' # re_sub_token nm v (?m @ b)"
    using re_sub_token_step [OF m2] by simp
  also have "\<dots> = CHR ''{'' # CHR ''{'' # ?m @ re_sub_token nm v b"
    using re_sub_token_no_brace [OF nb] by simp
  finally show ?thesis using t by simp
qed

lemma re_sub_token_split:
  assumes "name_ok nm"
  shows "re_sub_token nm v (a @ CHR ''{'' # CHR ''{'' # z)
       = re_sub_token nm v a @ re_sub_token nm v (CHR ''{'' # CHR ''{'' # z)"
proof (induction "length a" arbitrary: a rule: less_induct)
  case less
  show ?case
  proof (cases a)
    case Nil
    then show ?thesis by simp
  next
    case (Cons c cs)
    show ?thesis
    proof (cases "match_token nm a")
      case None
      have ne: "a \<noteq> []" using Cons by simp
      have "match_token nm (c # (cs @ CHR ''{'' # CHR ''{'' # z)) = None"
        using match_token_no_straddle [OF assms ne None, of z] Cons by simp
      then have "re_sub_token nm v (a @ CHR ''{'' # CHR ''{'' # z)
          = c # re_sub_token nm v (cs @ CHR ''{'' # CHR ''{'' # z)"
        using re_sub_token_step [of nm c "cs @ CHR ''{'' # CHR ''{'' # z" v] Cons by simp
      moreover have "re_sub_token nm v (cs @ CHR ''{'' # CHR ''{'' # z)
          = re_sub_token nm v cs @ re_sub_token nm v (CHR ''{'' # CHR ''{'' # z)"
        using less [of cs] Cons by simp
      moreover have "re_sub_token nm v a = c # re_sub_token nm v cs"
        using re_sub_token_step [of nm c cs v] None Cons by simp
      ultimately show ?thesis by simp
    next
      case (Some rest)
      from match_token_D [OF Some] have l: "length rest < length a" by auto
      have ne: "a \<noteq> []" using Cons by simp
      have "match_token nm (a @ CHR ''{'' # CHR ''{'' # z) = Some (rest @ CHR ''{'' # CHR ''{'' # z)"
        using match_token_extend [OF assms Some] by simp
      then have "re_sub_token nm v (a @ CHR ''{'' # CHR ''{'' # z)
          = v @ re_sub_token nm v (rest @ CHR ''{'' # CHR ''{'' # z)"
        using re_sub_token_match [of "a @ CHR ''{'' # CHR ''{'' # z" nm _ v] by simp
      moreover have "re_sub_token nm v (rest @ CHR ''{'' # CHR ''{'' # z)
          = re_sub_token nm v rest @ re_sub_token nm v (CHR ''{'' # CHR ''{'' # z)"
        using less [OF l] by simp
      moreover have "re_sub_token nm v a = v @ re_sub_token nm v rest"
        using re_sub_token_match [OF ne Some, of v] by simp
      ultimately show ?thesis by simp
    qed
  qed
qed

lemma token_starts_with_braces:
  "match_token nm t = Some r \<Longrightarrow> \<exists>z. t = CHR ''{'' # CHR ''{'' # z"
  by (auto dest: match_token_D)

lemma re_sub_token_same_split:
  assumes "name_ok nm" and "match_token nm t = Some []"
  shows "re_sub_token nm v (a @ t @ b) = re_sub_token nm v a @ v @ re_sub_token nm v b"
proof -
  from token_starts_with_braces [OF assms(2)] obtain z where t: "t = CHR ''{'' # CHR ''{'' # z"
    by blast
  have "re_sub_token nm v (a @ t @ b) = re_sub_token nm v a @ re_sub_token nm v (t @ b)"
    using re_sub_token_split [OF assms(1), of v a "z @ b"] t by simp
  then show ?thesis using re_sub_token_same [OF assms, of v b] by simp
qed

lemma re_sub_token_other_split:
  assumes "name_ok nm" and "name_ok nm2" and "\<not> prefix nm nm2" and "\<not> prefix nm2 nm"
    and "match_token nm2 t = Some []"
  shows "re_sub_token nm v (a @ t @ b) = re_sub_token nm v a @ t @ re_sub_token nm v b"
proof -
  from token_starts_with_braces [OF assms(5)] obtain z where t: "t = CHR ''{'' # CHR ''{'' # z"
    by blast
  have "re_sub_token nm v (a @ t @ b) = re_sub_token nm v a @ re_sub_token nm v (t @ b)"
    using re_sub_token_split [OF assms(1), of v a "z @ b"] t by simp
  then show ?thesis using re_sub_token_other [OF assms, of v b] by simp
qed

lemma token_names_ok:
  "name_ok ''TITLE''" "name_ok ''TIMESTAMP''" "name_ok ''NBCOUNT''" "name_ok ''TREE_JSON''"
  by (simp_all add: name_ok_def is_space_def)

lemma render_tokens_tree_split:
  assumes "match_token ''TREE_JSON'' t = Some []"
  shows "render_tokens now (a @ t @ b) title nb (Some tree)
       = render_tokens now a title nb (Some tree) @ safe_json tree
           @ render_tokens now b title nb (Some tree)"
proof -
  have o: "re_sub_token nm v (x @ t @ y) = re_sub_token nm v x @ t @ re_sub_token nm v y"
    if "nm \<in> {''TITLE'', ''TIMESTAMP'', ''NBCOUNT''}" for nm v x y
    using that re_sub_token_other_split [OF _ token_names_ok(4) _ _ assms, of nm v x y]
    by (auto simp: token_names_ok)
  show ?thesis
    by (simp add: render_tokens_def Let_def o
        re_sub_token_same_split [OF token_names_ok(4) assms])
qed

text \<open>
  Claim C3, as stated, fails: the passes follow one another, each on the output of the one
  before it, so a token of a later pass inside the title is replaced by that pass.
\<close>

theorem substitution_is_verbatim_in_its_pass_counterexample:
  "html_escape ''{{ NBCOUNT }}'' = ''{{ NBCOUNT }}''
   \<and> render_tokens \<lparr>dt_year = 2025, dt_month = 3, dt_day = 9, dt_hour = 7, dt_minute = 0\<rparr>
        ''<h1>{{ TITLE }}</h1>'' ''{{ NBCOUNT }}'' 7 None = ''<h1>7</h1>''"
  by code_simp

text \<open>
  Claim C3, amended. Within one pass a value is inserted as it is and is not scanned again by
  that pass: where the text holds a token of the pass, the result is the result for the text
  before the token, the value, and the result for the text after it. The passes run one
  after the other, for the title, the time stamp, the count and then the tree, each on the
  output of the one before it: the title that the first pass has put in is scanned by the
  later passes, and the value of the last pass, the serialised tree, is in the rendered page
  unchanged whatever it holds.
\<close>

theorem substitution_is_verbatim_in_its_pass:
  "(nm \<in> set [''TITLE'', ''TIMESTAMP'', ''NBCOUNT'', ''TREE_JSON''] \<longrightarrow>
      match_token nm t = Some [] \<longrightarrow>
      re_sub_token nm v (a @ t @ b) = re_sub_token nm v a @ v @ re_sub_token nm v b)
   \<and> render_tokens now src title nb tree_opt
       = (let p = re_sub_token ''NBCOUNT'' (dec nb)
                    (re_sub_token ''TIMESTAMP'' (strftime now)
                       (re_sub_token ''TITLE'' (html_escape title) src))
          in case tree_opt of
               None \<Rightarrow> p
             | Some tree \<Rightarrow> re_sub_token ''TREE_JSON'' (safe_json tree) p)
   \<and> (match_token ''TREE_JSON'' t = Some [] \<longrightarrow>
        render_tokens now (a @ t @ b) title nb (Some tree)
          = render_tokens now a title nb (Some tree) @ safe_json tree
              @ render_tokens now b title nb (Some tree))"
proof -
  have "re_sub_token nm v (a @ t @ b) = re_sub_token nm v a @ v @ re_sub_token nm v b"
    if "nm \<in> set [''TITLE'', ''TIMESTAMP'', ''NBCOUNT'', ''TREE_JSON'']"
      and "match_token nm t = Some []"
  proof -
    from that(1) have "name_ok nm" using token_names_ok by auto
    from re_sub_token_same_split [OF this that(2)] show ?thesis .
  qed
  moreover have "render_tokens now src title nb tree_opt
       = (let p = re_sub_token ''NBCOUNT'' (dec nb)
                    (re_sub_token ''TIMESTAMP'' (strftime now)
                       (re_sub_token ''TITLE'' (html_escape title) src))
          in case tree_opt of
               None \<Rightarrow> p
             | Some tree \<Rightarrow> re_sub_token ''TREE_JSON'' (safe_json tree) p)"
    by (simp add: render_tokens_def Let_def split: option.splits)
  ultimately show ?thesis
    using render_tokens_tree_split [of t now a b title nb tree] by blast
qed

theorem substitution_is_verbatim_in_its_pass_witness:
  "re_sub_token ''TITLE'' ''{{TITLE}}'' ''x{{ TITLE }}y'' = ''x{{TITLE}}y''
   \<and> render_tokens \<lparr>dt_year = 2025, dt_month = 3, dt_day = 9, dt_hour = 7, dt_minute = 0\<rparr>
        ''[{{ TREE_JSON }}]'' ''T'' 1 (Some (DirNode ''{{ TREE_JSON }}'' [] []))
       = ''['' @ safe_json (DirNode ''{{ TREE_JSON }}'' [] []) @ '']''"
proof -
  let ?now = "\<lparr>dt_year = 2025, dt_month = 3, dt_day = 9, dt_hour = 7, dt_minute = 0\<rparr>"
  let ?tree = "DirNode ''{{ TREE_JSON }}'' [] []"
  have m1: "match_token ''TITLE'' ''{{ TITLE }}'' = Some []"
    and m2: "match_token ''TREE_JSON'' ''{{ TREE_JSON }}'' = Some []"
    by code_simp+
  have r1: "re_sub_token ''TITLE'' ''{{TITLE}}'' ''x'' = ''x''"
    and r2: "re_sub_token ''TITLE'' ''{{TITLE}}'' ''y'' = ''y''"
    by code_simp+
  have r3: "render_tokens ?now ''['' ''T'' 1 (Some ?tree) = ''[''"
    and r4: "render_tokens ?now '']'' ''T'' 1 (Some ?tree) = '']''"
    by code_simp+
  note t1 = substitution_is_verbatim_in_its_pass
    [where nm = "''TITLE''" and t = "''{{ TITLE }}''" and v = "''{{TITLE}}''"
       and a = "''x''" and b = "''y''"]
  note t2 = substitution_is_verbatim_in_its_pass
    [where t = "''{{ TREE_JSON }}''" and a = "''[''" and b = "'']''" and now = ?now
       and title = "''T''" and nb = 1 and tree = ?tree]
  from t1 m1 have "re_sub_token ''TITLE'' ''{{TITLE}}'' (''x'' @ ''{{ TITLE }}'' @ ''y'')
      = re_sub_token ''TITLE'' ''{{TITLE}}'' ''x'' @ ''{{TITLE}}''
          @ re_sub_token ''TITLE'' ''{{TITLE}}'' ''y''"
    by simp
  then have a1: "re_sub_token ''TITLE'' ''{{TITLE}}'' ''x{{ TITLE }}y'' = ''x{{TITLE}}y''"
    unfolding r1 r2 by simp
  from t2 m2 have "render_tokens ?now (''['' @ ''{{ TREE_JSON }}'' @ '']'') ''T'' 1 (Some ?tree)
      = render_tokens ?now ''['' ''T'' 1 (Some ?tree) @ safe_json ?tree
          @ render_tokens ?now '']'' ''T'' 1 (Some ?tree)"
    by blast
  then have a2: "render_tokens ?now ''[{{ TREE_JSON }}]'' ''T'' 1 (Some ?tree)
      = ''['' @ safe_json ?tree @ '']''"
    unfolding r3 r4 by simp
  from a1 a2 show ?thesis by blast
qed

section \<open>The order of the children\<close>

lemma node_name_append_at [simp]: "node_name (append_at pos ch t) = node_name t"
  by (induction pos ch t rule: append_at.induct) auto

lemma child_names_Nil [simp]: "child_names [] (DirNode n p cs) = map node_name cs"
  by (simp add: child_names_def)


lemma child_names_File [simp]: "child_names pos (FileNode n p h) = []"
  by (cases pos) (auto simp: child_names_def)














lemma ensure_dirs_dir_map_mono:
  "dir_map s k = Some pos \<Longrightarrow> dir_map (ensure_dirs e rel i ps cur parent_node s) k = Some pos"
proof (induction ps arbitrary: i cur parent_node s)
  case Nil
  then show ?case by simp
next
  case (Cons p ps)
  show ?case
  proof (cases "dir_map s (resolve_str e (cur @ [p]))")
    case None
    with Cons.prems have "k \<noteq> resolve_str e (cur @ [p])" by auto
    with Cons None show ?thesis by (simp add: Let_def)
  next
    case (Some a)
    with Cons show ?thesis by (simp add: Let_def)
  qed
qed





lemma node_name_prune_spec [simp]: "node_name (prune_spec t) = node_name t"
  by (cases t) auto




end
